theory Spec2Isabelle
  imports Main
begin

section \<open>Memory and element types\<close>

text \<open>
  \<open>simple_vector.h\<close> works on raw element pointers (\<open>Type*\<close>, which is also the
  iterator type) into an array that an \<open>ArrayPtr<Type>\<close> owns. Memory is modelled as a
  store of array objects: an address names one array made by \<open>new Type[n]\<close>, and an element
  pointer is the address of the array together with an offset into it. Address \<open>0\<close> is the
  null pointer. \<open>size_t\<close> is modelled as \<open>nat\<close>: an array of \<open>n\<close> slots takes at
  least \<open>n\<close> bytes of a 64-bit address space, so the capacity of a live buffer is below
  \<open>2^63\<close> and \<open>capacity_ * 2\<close> does not wrap. Allocation is assumed to succeed
  (\<open>std::bad_alloc\<close> is not modelled).
\<close>

type_synonym addr = nat
type_synonym ptr = "addr \<times> nat"

record 'a heap =
  blocks :: "addr \<rightharpoonup> 'a list"
  fresh :: addr

text \<open>
  The template parameter \<open>Type\<close>. Of the element type the container uses its default
  constructor \<open>Type()\<close> and its copy and move operations. A copy leaves the source as it
  is; a move leaves it in a state that depends on the type (\<open>moved_from\<close>; the identity
  for \<open>int\<close>, the empty string for \<open>std::string\<close>).
\<close>

record 'a element_type =
  Type_default :: 'a
  moved_from :: "'a \<Rightarrow> 'a"

definition nullptr :: ptr where
  "nullptr = (0, 0)"

text \<open>Pointer arithmetic \<open>p + n\<close> and \<open>p - q\<close>, and the comparison \<open>p <= q\<close> of two
  pointers into the same array (pointers into different arrays are unordered).\<close>

definition ptr_add :: "ptr \<Rightarrow> nat \<Rightarrow> ptr" where
  "ptr_add p n = (fst p, snd p + n)"

definition ptr_diff :: "ptr \<Rightarrow> ptr \<Rightarrow> nat" where
  "ptr_diff p q = snd p - snd q"

definition ptr_le :: "ptr \<Rightarrow> ptr \<Rightarrow> bool" where
  "ptr_le p q \<longleftrightarrow> fst p = fst q \<and> snd p \<le> snd q"

definition ptr_less :: "ptr \<Rightarrow> ptr \<Rightarrow> bool" where
  "ptr_less p q \<longleftrightarrow> fst p = fst q \<and> snd p < snd q"

text \<open>The array an address names (no slots where nothing is allocated), reading
  \<open>*p\<close> and writing \<open>*p = x\<close>.\<close>

definition block :: "'a heap \<Rightarrow> addr \<Rightarrow> 'a list" where
  "block h a = (case blocks h a of None \<Rightarrow> [] | Some xs \<Rightarrow> xs)"

definition deref :: "'a heap \<Rightarrow> ptr \<Rightarrow> 'a" where
  "deref h p = block h (fst p) ! snd p"

definition store :: "ptr \<Rightarrow> 'a \<Rightarrow> 'a heap \<Rightarrow> 'a heap" where
  "store p x h =
     (case blocks h (fst p) of
        None \<Rightarrow> h
      | Some xs \<Rightarrow> h\<lparr>blocks := (blocks h)(fst p \<mapsto> xs[snd p := x])\<rparr>)"

text \<open>\<open>*dst = *src\<close> (copy assignment of an element) and \<open>*dst = std::move(*src)\<close>.\<close>

definition copy_elem :: "ptr \<Rightarrow> ptr \<Rightarrow> 'a heap \<Rightarrow> 'a heap" where
  "copy_elem src dst h = store dst (deref h src) h"

definition move_elem :: "'a element_type \<Rightarrow> ptr \<Rightarrow> ptr \<Rightarrow> 'a heap \<Rightarrow> 'a heap" where
  "move_elem T src dst h =
     (let x = deref h src in store src (moved_from T x) (store dst x h))"

text \<open>
  A reference parameter (\<open>const Type&\<close>, \<open>Type&&\<close>) is bound to an object of the caller.
  That object is a slot of an array of the store (what \<open>operator[]\<close>, \<open>At\<close> and
  dereferencing an iterator give), named by its address, or it lies outside the arrays (a local
  variable or a temporary of the caller), and then the model keeps its value. A function reads
  a reference at the moment its statement runs: what a slot holds then is what the statements
  before it have left there.
\<close>

datatype 'a reference = Slot ptr | Outside 'a

text \<open>\<open>*dst = item\<close> (also \<open>*dst = std::move(item)\<close> for a \<open>const Type&\<close>, which
  copies) and \<open>*dst = std::move(item)\<close> for a \<open>Type&&\<close>. The state that a moved-from
  object outside the arrays is left in is not part of the store.\<close>

fun copy_assign :: "ptr \<Rightarrow> 'a reference \<Rightarrow> 'a heap \<Rightarrow> 'a heap" where
  "copy_assign dst (Slot src) h = copy_elem src dst h"
| "copy_assign dst (Outside x) h = store dst x h"

fun move_assign :: "'a element_type \<Rightarrow> ptr \<Rightarrow> 'a reference \<Rightarrow> 'a heap \<Rightarrow> 'a heap" where
  "move_assign T dst (Slot src) h = move_elem T src dst h"
| "move_assign T dst (Outside x) h = store dst x h"

section \<open>The algorithms of the standard library that the container calls\<close>

text \<open>
  \<open>std::copy(first, last, d_first)\<close> and \<open>std::move(first, last, d_first)\<close> go through
  \<open>[first, last)\<close> from the front; \<open>std::copy_backward(first, last, d_last)\<close> and
  \<open>std::move_backward\<close> go from the back and write the range that ends at \<open>d_last\<close>.
  \<open>std::generate(first, last, g)\<close> and \<open>std::fill(first, last, value)\<close> write every slot
  of the range.
\<close>

definition std_copy :: "ptr \<Rightarrow> ptr \<Rightarrow> ptr \<Rightarrow> 'a heap \<Rightarrow> 'a heap" where
  "std_copy first last' d_first h =
     fold (\<lambda>i. copy_elem (ptr_add first i) (ptr_add d_first i)) [0..<ptr_diff last' first] h"

definition std_move :: "'a element_type \<Rightarrow> ptr \<Rightarrow> ptr \<Rightarrow> ptr \<Rightarrow> 'a heap \<Rightarrow> 'a heap" where
  "std_move T first last' d_first h =
     fold (\<lambda>i. move_elem T (ptr_add first i) (ptr_add d_first i)) [0..<ptr_diff last' first] h"

definition std_copy_backward :: "ptr \<Rightarrow> ptr \<Rightarrow> ptr \<Rightarrow> 'a heap \<Rightarrow> 'a heap" where
  "std_copy_backward first last' d_last h =
     fold (\<lambda>i. copy_elem (fst last', snd last' - Suc i) (fst d_last, snd d_last - Suc i))
       [0..<ptr_diff last' first] h"

definition std_move_backward :: "'a element_type \<Rightarrow> ptr \<Rightarrow> ptr \<Rightarrow> ptr \<Rightarrow> 'a heap \<Rightarrow> 'a heap" where
  "std_move_backward T first last' d_last h =
     fold (\<lambda>i. move_elem T (fst last', snd last' - Suc i) (fst d_last, snd d_last - Suc i))
       [0..<ptr_diff last' first] h"

definition std_fill :: "ptr \<Rightarrow> ptr \<Rightarrow> 'a \<Rightarrow> 'a heap \<Rightarrow> 'a heap" where
  "std_fill first last' x h =
     fold (\<lambda>i. store (ptr_add first i) x) [0..<ptr_diff last' first] h"

text \<open>\<open>std::generate(first, last, g)\<close>: the generator is given by the values of its
  successive calls, \<open>g 0\<close>, \<open>g 1\<close>, ...\<close>

definition std_generate :: "ptr \<Rightarrow> ptr \<Rightarrow> (nat \<Rightarrow> 'a) \<Rightarrow> 'a heap \<Rightarrow> 'a heap" where
  "std_generate first last' g h =
     fold (\<lambda>i. store (ptr_add first i) (g i)) [0..<ptr_diff last' first] h"

text \<open>\<open>std::copy\<close> out of a \<open>std::initializer_list\<close>, which is not an array of the
  store.\<close>

definition std_copy_init :: "'a list \<Rightarrow> ptr \<Rightarrow> 'a heap \<Rightarrow> 'a heap" where
  "std_copy_init init d_first h =
     fold (\<lambda>i. store (ptr_add d_first i) (init ! i)) [0..<length init] h"

text \<open>\<open>std::equal(first1, last1, first2)\<close>, with \<open>==\<close> of the element type as
  equality.\<close>

definition std_equal :: "'a heap \<Rightarrow> ptr \<Rightarrow> ptr \<Rightarrow> ptr \<Rightarrow> bool" where
  "std_equal h first1 last1 first2 =
     list_all (\<lambda>i. deref h (ptr_add first1 i) = deref h (ptr_add first2 i))
       [0..<ptr_diff last1 first1]"

section \<open>ArrayPtr\<close>

text \<open>
  The class \<open>ArrayPtr\<close> of \<open>array_ptr.h\<close> is not among the sources; what
  \<open>simple_vector.h\<close> uses of it is modelled from section 4.1 of the specification (the
  owned buffer). An \<open>ArrayPtr\<close> is its raw pointer, the address of the array it owns.
\<close>

type_synonym ArrayPtr = addr

text \<open>Modelled from the spec: the constructor \<open>ArrayPtr(size_t size)\<close> of the missing
  \<open>array_ptr.h\<close>. Acquiring a buffer of a capacity gives exactly that many
  default-constructed slots; a buffer of capacity 0 holds no storage (the null pointer).\<close>

definition ArrayPtr_new :: "'a element_type \<Rightarrow> nat \<Rightarrow> 'a heap \<Rightarrow> ArrayPtr \<times> 'a heap" where
  "ArrayPtr_new T n h =
     (if n = 0 then (0, h)
      else (fresh h,
            h\<lparr>blocks := (blocks h)(fresh h \<mapsto> replicate n (Type_default T)),
              fresh := Suc (fresh h)\<rparr>))"

text \<open>Modelled from the spec: the destructor of the missing \<open>ArrayPtr\<close>. Release frees
  the storage when the lifetime of the owner ends.\<close>

definition ArrayPtr_delete :: "ArrayPtr \<Rightarrow> 'a heap \<Rightarrow> 'a heap" where
  "ArrayPtr_delete a h = h\<lparr>blocks := (blocks h)(a := None)\<rparr>"

text \<open>Modelled from the spec: \<open>Get()\<close> of the missing \<open>ArrayPtr\<close>, the raw base pointer
  of the buffer; \<open>operator[]\<close> of \<open>ArrayPtr\<close> is the element at an offset from it, without
  a check.\<close>

definition Get :: "ArrayPtr \<Rightarrow> ptr" where
  "Get a = (a, 0)"

text \<open>Modelled from the spec: \<open>swap(ArrayPtr& other)\<close> of the missing \<open>ArrayPtr\<close>
  exchanges the ownership of the two buffers and moves no element. The result is the pair of
  \<open>*this\<close> and \<open>other\<close> after the call.\<close>

definition ArrayPtr_swap :: "ArrayPtr \<Rightarrow> ArrayPtr \<Rightarrow> ArrayPtr \<times> ArrayPtr" where
  "ArrayPtr_swap a b = (b, a)"

section \<open>ReserveProxyObj\<close>

record ReserveProxyObj =
  reserved_capacity :: nat

definition ReserveProxyObj_GetCapacity :: "ReserveProxyObj \<Rightarrow> nat" where
  "ReserveProxyObj_GetCapacity obj = reserved_capacity obj"

definition Reserve :: "nat \<Rightarrow> ReserveProxyObj" where
  "Reserve capacity_to_reserve = \<lparr>reserved_capacity = capacity_to_reserve\<rparr>"

section \<open>SimpleVector\<close>

record SimpleVector =
  size_m :: nat
  capacity_m :: nat
  data_m :: ArrayPtr

datatype error = out_of_range | assertion_failed

subsection \<open>Observers\<close>

definition GetSize :: "SimpleVector \<Rightarrow> nat" where
  "GetSize v = size_m v"

definition GetCapacity :: "SimpleVector \<Rightarrow> nat" where
  "GetCapacity v = capacity_m v"

definition IsEmpty :: "SimpleVector \<Rightarrow> bool" where
  "IsEmpty v \<longleftrightarrow> size_m v = 0"

definition begin_it :: "SimpleVector \<Rightarrow> ptr" where
  "begin_it v = Get (data_m v)"

definition end_it :: "SimpleVector \<Rightarrow> ptr" where
  "end_it v = ptr_add (Get (data_m v)) (size_m v)"

text \<open>The sequence a vector holds: the first \<open>size_\<close> slots of its buffer.\<close>

definition elements :: "'a heap \<Rightarrow> SimpleVector \<Rightarrow> 'a list" where
  "elements h v = take (size_m v) (block h (data_m v))"

subsection \<open>Constructors and destructor\<close>

text \<open>\<open>SimpleVector()\<close>: the default member initialisers.\<close>

definition SimpleVector_default :: SimpleVector where
  "SimpleVector_default = \<lparr>size_m = 0, capacity_m = 0, data_m = 0\<rparr>"

text \<open>\<open>SimpleVector(const ReserveProxyObj& obj)\<close>\<close>

definition SimpleVector_reserved ::
  "'a element_type \<Rightarrow> ReserveProxyObj \<Rightarrow> 'a heap \<Rightarrow> SimpleVector \<times> 'a heap" where
  "SimpleVector_reserved T obj h =
     (case ArrayPtr_new T (ReserveProxyObj_GetCapacity obj) h of
        (d, h1) \<Rightarrow>
          (\<lparr>size_m = 0, capacity_m = ReserveProxyObj_GetCapacity obj, data_m = d\<rparr>, h1))"

text \<open>\<open>explicit SimpleVector(size_t size)\<close>\<close>

definition SimpleVector_sized ::
  "'a element_type \<Rightarrow> nat \<Rightarrow> 'a heap \<Rightarrow> SimpleVector \<times> 'a heap" where
  "SimpleVector_sized T n h =
     (case ArrayPtr_new T n h of
        (d, h1) \<Rightarrow>
          (\<lparr>size_m = n, capacity_m = n, data_m = d\<rparr>,
           std_generate (Get d) (ptr_add (Get d) n) (\<lambda>_. Type_default T) h1))"

text \<open>\<open>SimpleVector(size_t size, const Type& value)\<close>. The constructor only reads
  \<open>value\<close> and writes only the new array, which no object of the caller is in: the
  argument is given by its value.\<close>

definition SimpleVector_filled ::
  "'a element_type \<Rightarrow> nat \<Rightarrow> 'a \<Rightarrow> 'a heap \<Rightarrow> SimpleVector \<times> 'a heap" where
  "SimpleVector_filled T n x h =
     (case ArrayPtr_new T n h of
        (d, h1) \<Rightarrow>
          (\<lparr>size_m = n, capacity_m = n, data_m = d\<rparr>,
           std_fill (Get d) (ptr_add (Get d) n) x h1))"

text \<open>\<open>SimpleVector(size_t size, Type&& value)\<close>: every call of the generator moves
  from \<open>value\<close> again. The argument is given by the value it has before the call.\<close>

definition SimpleVector_filled_move ::
  "'a element_type \<Rightarrow> nat \<Rightarrow> 'a \<Rightarrow> 'a heap \<Rightarrow> SimpleVector \<times> 'a heap" where
  "SimpleVector_filled_move T n x h =
     (case ArrayPtr_new T n h of
        (d, h1) \<Rightarrow>
          (\<lparr>size_m = n, capacity_m = n, data_m = d\<rparr>,
           std_generate (Get d) (ptr_add (Get d) n) (\<lambda>i. (moved_from T ^^ i) x) h1))"

text \<open>\<open>SimpleVector(std::initializer_list<Type> init)\<close>\<close>

definition SimpleVector_init ::
  "'a element_type \<Rightarrow> 'a list \<Rightarrow> 'a heap \<Rightarrow> SimpleVector \<times> 'a heap" where
  "SimpleVector_init T init h =
     (case ArrayPtr_new T (length init) h of
        (d, h1) \<Rightarrow>
          (\<lparr>size_m = length init, capacity_m = length init, data_m = d\<rparr>,
           std_copy_init init (Get d) h1))"

text \<open>\<open>swap(SimpleVector& other)\<close>, on two different objects: the pair of \<open>*this\<close> and
  \<open>other\<close> after the call.\<close>

definition swap :: "SimpleVector \<Rightarrow> SimpleVector \<Rightarrow> SimpleVector \<times> SimpleVector" where
  "swap this other =
     (case ArrayPtr_swap (data_m this) (data_m other) of
        (d, d') \<Rightarrow>
          (\<lparr>size_m = size_m other, capacity_m = capacity_m other, data_m = d\<rparr>,
           \<lparr>size_m = size_m this, capacity_m = capacity_m this, data_m = d'\<rparr>))"

text \<open>The implicit destructor: the member \<open>data_\<close> releases its array.\<close>

definition destroy :: "SimpleVector \<Rightarrow> 'a heap \<Rightarrow> 'a heap" where
  "destroy v h = ArrayPtr_delete (data_m v) h"

text \<open>\<open>SimpleVector(const SimpleVector& other)\<close>: \<open>*this\<close> starts from the default
  member initialisers; \<open>tmp_vector\<close> dies at the end of the body.\<close>

definition SimpleVector_copy ::
  "'a element_type \<Rightarrow> SimpleVector \<Rightarrow> 'a heap \<Rightarrow> SimpleVector \<times> 'a heap" where
  "SimpleVector_copy T other h =
     (case SimpleVector_sized T (GetSize other) h of
        (tmp_vector, h1) \<Rightarrow>
          (case swap SimpleVector_default tmp_vector of
             (this, tmp_vector') \<Rightarrow>
               (this,
                destroy tmp_vector'
                  (std_copy (begin_it other) (end_it other) (begin_it tmp_vector) h1))))"

text \<open>\<open>SimpleVector(SimpleVector&& other)\<close>: the new vector and \<open>other\<close> after the
  call.\<close>

definition SimpleVector_move :: "SimpleVector \<Rightarrow> SimpleVector \<times> SimpleVector" where
  "SimpleVector_move other = swap SimpleVector_default other"

subsection \<open>Element access\<close>

text \<open>\<open>operator[]\<close> and \<open>At\<close> return a reference to the element: its address.\<close>

definition Index :: "nat \<Rightarrow> SimpleVector \<Rightarrow> error + ptr" where
  "Index index v =
     (if index < size_m v then Inr (ptr_add (Get (data_m v)) index)
      else Inl assertion_failed)"

definition At :: "nat \<Rightarrow> SimpleVector \<Rightarrow> error + ptr" where
  "At index v =
     (if index \<ge> size_m v then Inl out_of_range
      else Inr (ptr_add (Get (data_m v)) index))"

subsection \<open>Modifiers\<close>

definition Clear :: "SimpleVector \<Rightarrow> SimpleVector" where
  "Clear v = v\<lparr>size_m := 0\<rparr>"

text \<open>\<open>Reserve(size_t new_capacity)\<close>. After \<open>data_.swap(new_data)\<close> the local
  \<open>new_data\<close> holds the old array and releases it at the end of the block.\<close>

definition SimpleVector_Reserve ::
  "'a element_type \<Rightarrow> nat \<Rightarrow> SimpleVector \<Rightarrow> 'a heap \<Rightarrow> SimpleVector \<times> 'a heap" where
  "SimpleVector_Reserve T new_capacity v h =
     (if new_capacity > capacity_m v then
        (case ArrayPtr_new T new_capacity h of
           (new_data, h1) \<Rightarrow>
             (let h2 = std_move T (Get (data_m v)) (ptr_add (Get (data_m v)) (size_m v))
                         (Get new_data) h1
              in case ArrayPtr_swap (data_m v) new_data of
                   (d, new_data') \<Rightarrow>
                     (v\<lparr>data_m := d, capacity_m := new_capacity\<rparr>,
                      ArrayPtr_delete new_data' h2)))
      else (v, h))"

definition Resize ::
  "'a element_type \<Rightarrow> nat \<Rightarrow> SimpleVector \<Rightarrow> 'a heap \<Rightarrow> SimpleVector \<times> 'a heap" where
  "Resize T new_size v h =
     (if new_size \<le> size_m v then (v\<lparr>size_m := new_size\<rparr>, h)
      else if new_size \<le> capacity_m v then
        (v\<lparr>size_m := new_size\<rparr>,
         std_generate (ptr_add (Get (data_m v)) (size_m v)) (ptr_add (Get (data_m v)) new_size)
           (\<lambda>_. Type_default T) h)
      else
        (let new_capacity = max new_size (capacity_m v * 2) in
         case ArrayPtr_new T new_capacity h of
           (new_data, h1) \<Rightarrow>
             (let h2 = std_move T (Get (data_m v)) (ptr_add (Get (data_m v)) (size_m v))
                         (Get new_data) h1;
                  h3 = std_generate (ptr_add (Get new_data) (size_m v))
                         (ptr_add (Get new_data) new_size) (\<lambda>_. Type_default T) h2
              in case ArrayPtr_swap (data_m v) new_data of
                   (d, new_data') \<Rightarrow>
                     (v\<lparr>data_m := d, capacity_m := new_capacity, size_m := new_size\<rparr>,
                      ArrayPtr_delete new_data' h3))))"

text \<open>\<open>PushBack(const Type& item)\<close>; \<open>std::move\<close> of a const reference copies. The
  reference is read after \<open>std::move\<close> has taken the elements to the new array.\<close>

definition PushBack ::
  "'a element_type \<Rightarrow> 'a reference \<Rightarrow> SimpleVector \<Rightarrow> 'a heap \<Rightarrow> SimpleVector \<times> 'a heap" where
  "PushBack T item v h =
     (if size_m v = capacity_m v then
        (let new_capacity = (if capacity_m v = 0 then 1 else capacity_m v * 2) in
         case ArrayPtr_new T new_capacity h of
           (new_data, h1) \<Rightarrow>
             (let h2 = std_move T (Get (data_m v)) (ptr_add (Get (data_m v)) (size_m v))
                         (Get new_data) h1;
                  h3 = copy_assign (ptr_add (Get new_data) (size_m v)) item h2
              in case ArrayPtr_swap (data_m v) new_data of
                   (d, new_data') \<Rightarrow>
                     (v\<lparr>data_m := d, capacity_m := new_capacity, size_m := size_m v + 1\<rparr>,
                      ArrayPtr_delete new_data' h3)))
      else
        (v\<lparr>size_m := size_m v + 1\<rparr>,
         copy_assign (ptr_add (Get (data_m v)) (size_m v)) item h))"

text \<open>\<open>PushBack(Type&& item)\<close>: the same statements; the object that \<open>item\<close> refers to
  is moved from.\<close>

definition PushBack_move ::
  "'a element_type \<Rightarrow> 'a reference \<Rightarrow> SimpleVector \<Rightarrow> 'a heap \<Rightarrow> SimpleVector \<times> 'a heap" where
  "PushBack_move T item v h =
     (if size_m v = capacity_m v then
        (let new_capacity = (if capacity_m v = 0 then 1 else capacity_m v * 2) in
         case ArrayPtr_new T new_capacity h of
           (new_data, h1) \<Rightarrow>
             (let h2 = std_move T (Get (data_m v)) (ptr_add (Get (data_m v)) (size_m v))
                         (Get new_data) h1;
                  h3 = move_assign T (ptr_add (Get new_data) (size_m v)) item h2
              in case ArrayPtr_swap (data_m v) new_data of
                   (d, new_data') \<Rightarrow>
                     (v\<lparr>data_m := d, capacity_m := new_capacity, size_m := size_m v + 1\<rparr>,
                      ArrayPtr_delete new_data' h3)))
      else
        (v\<lparr>size_m := size_m v + 1\<rparr>,
         move_assign T (ptr_add (Get (data_m v)) (size_m v)) item h))"

text \<open>\<open>Insert(ConstIterator pos, const Type& value)\<close>: the returned iterator, the
  vector and the store, or the failed assertion. Where there is room, the reference is read
  after \<open>std::copy_backward\<close> has shifted the elements from \<open>pos\<close> on.\<close>

definition Insert ::
  "'a element_type \<Rightarrow> ptr \<Rightarrow> 'a reference \<Rightarrow> SimpleVector \<Rightarrow> 'a heap
     \<Rightarrow> error + (ptr \<times> SimpleVector \<times> 'a heap)" where
  "Insert T pos val v h =
     (if \<not> (ptr_le (begin_it v) pos \<and> ptr_le pos (end_it v)) then Inl assertion_failed
      else
        (let it = ptr_diff pos (Get (data_m v)) in
         if size_m v = capacity_m v then
           (let new_capacity = (if capacity_m v = 0 then 1 else capacity_m v * 2) in
            case ArrayPtr_new T new_capacity h of
              (new_data, h1) \<Rightarrow>
                (let h2 = std_copy (Get (data_m v)) (ptr_add (Get (data_m v)) it)
                            (Get new_data) h1;
                     h3 = copy_assign (ptr_add (Get new_data) it) val h2;
                     h4 = std_copy (ptr_add (Get (data_m v)) it)
                            (ptr_add (Get (data_m v)) (size_m v))
                            (ptr_add (ptr_add (Get new_data) it) 1) h3
                 in case ArrayPtr_swap (data_m v) new_data of
                      (d, new_data') \<Rightarrow>
                        (let v' = v\<lparr>data_m := d, capacity_m := new_capacity,
                                     size_m := size_m v + 1\<rparr>
                         in Inr (ptr_add (Get (data_m v')) it, v',
                                 ArrayPtr_delete new_data' h4))))
         else
           (let h1 = std_copy_backward (ptr_add (Get (data_m v)) it)
                       (ptr_add (Get (data_m v)) (size_m v))
                       (ptr_add (ptr_add (Get (data_m v)) (size_m v)) 1) h;
                h2 = copy_assign (ptr_add (Get (data_m v)) it) val h1;
                v' = v\<lparr>size_m := size_m v + 1\<rparr>
            in Inr (ptr_add (Get (data_m v')) it, v', h2))))"

text \<open>\<open>Insert(ConstIterator pos, Type&& value)\<close>\<close>

definition Insert_move ::
  "'a element_type \<Rightarrow> ptr \<Rightarrow> 'a reference \<Rightarrow> SimpleVector \<Rightarrow> 'a heap
     \<Rightarrow> error + (ptr \<times> SimpleVector \<times> 'a heap)" where
  "Insert_move T pos val v h =
     (if \<not> (ptr_le (begin_it v) pos \<and> ptr_le pos (end_it v)) then Inl assertion_failed
      else
        (let it = ptr_diff pos (Get (data_m v)) in
         if size_m v = capacity_m v then
           (let new_capacity = (if capacity_m v = 0 then 1 else capacity_m v * 2) in
            case ArrayPtr_new T new_capacity h of
              (new_data, h1) \<Rightarrow>
                (let h2 = std_move T (Get (data_m v)) (ptr_add (Get (data_m v)) it)
                            (Get new_data) h1;
                     h3 = move_assign T (ptr_add (Get new_data) it) val h2;
                     h4 = std_move T (ptr_add (Get (data_m v)) it)
                            (ptr_add (Get (data_m v)) (size_m v))
                            (ptr_add (ptr_add (Get new_data) it) 1) h3
                 in case ArrayPtr_swap (data_m v) new_data of
                      (d, new_data') \<Rightarrow>
                        (let v' = v\<lparr>data_m := d, capacity_m := new_capacity,
                                     size_m := size_m v + 1\<rparr>
                         in Inr (ptr_add (Get (data_m v')) it, v',
                                 ArrayPtr_delete new_data' h4))))
         else
           (let h1 = std_move_backward T (ptr_add (Get (data_m v)) it)
                       (ptr_add (Get (data_m v)) (size_m v))
                       (ptr_add (ptr_add (Get (data_m v)) (size_m v)) 1) h;
                h2 = move_assign T (ptr_add (Get (data_m v)) it) val h1;
                v' = v\<lparr>size_m := size_m v + 1\<rparr>
            in Inr (ptr_add (Get (data_m v')) it, v', h2))))"

definition PopBack :: "SimpleVector \<Rightarrow> error + SimpleVector" where
  "PopBack v =
     (if \<not> size_m v > 0 then Inl assertion_failed
      else Inr (v\<lparr>size_m := size_m v - 1\<rparr>))"

text \<open>\<open>Erase(ConstIterator pos)\<close>: \<open>std::copy\<close> over move iterators moves the
  elements.\<close>

definition Erase ::
  "'a element_type \<Rightarrow> ptr \<Rightarrow> SimpleVector \<Rightarrow> 'a heap
     \<Rightarrow> error + (ptr \<times> SimpleVector \<times> 'a heap)" where
  "Erase T pos v h =
     (if \<not> (ptr_le (begin_it v) pos \<and> ptr_less pos (end_it v)) then Inl assertion_failed
      else
        (let it = ptr_diff pos (Get (data_m v));
             h1 = std_move T (ptr_add (ptr_add (Get (data_m v)) it) 1)
                    (ptr_add (Get (data_m v)) (size_m v))
                    (ptr_add (Get (data_m v)) it) h;
             v' = v\<lparr>size_m := size_m v - 1\<rparr>
         in Inr (ptr_add (Get (data_m v')) it, v', h1)))"

subsection \<open>Comparison\<close>

text \<open>\<open>operator==\<close>\<close>

definition equal_op :: "'a heap \<Rightarrow> SimpleVector \<Rightarrow> SimpleVector \<Rightarrow> bool" where
  "equal_op h lhs rhs \<longleftrightarrow>
     GetSize lhs = GetSize rhs \<and> std_equal h (begin_it lhs) (end_it lhs) (begin_it rhs)"

subsection \<open>Assignment\<close>

text \<open>
  The assignment operators compare the addresses of the two objects (\<open>this != &rhs\<close>), so
  they are modelled on a program state that holds the \<open>SimpleVector\<close> objects by address
  next to the store of arrays.
\<close>

record 'a program_state =
  memory :: "'a heap"
  object :: "nat \<Rightarrow> SimpleVector"

text \<open>
  Modelled from the spec: the move assignment of \<open>ArrayPtr\<close> (\<open>array_ptr.h\<close> is not among
  the sources). Ownership of the buffer goes to the target, which releases the buffer it held; the
  source is left without storage. The result is the target, the source and the store.
\<close>

definition ArrayPtr_move_assign ::
  "ArrayPtr \<Rightarrow> ArrayPtr \<Rightarrow> 'a heap \<Rightarrow> ArrayPtr \<times> ArrayPtr \<times> 'a heap" where
  "ArrayPtr_move_assign this other h = (other, 0, ArrayPtr_delete this h)"

text \<open>\<open>operator=(const SimpleVector& rhs)\<close>; \<open>rhs_copy\<close> dies at the end of the
  block.\<close>

definition operator_assign_copy ::
  "'a element_type \<Rightarrow> nat \<Rightarrow> nat \<Rightarrow> 'a program_state \<Rightarrow> 'a program_state" where
  "operator_assign_copy T this rhs s =
     (if this \<noteq> rhs then
        (case SimpleVector_copy T (object s rhs) (memory s) of
           (rhs_copy, h1) \<Rightarrow>
             (case swap (object s this) rhs_copy of
                (this', rhs_copy') \<Rightarrow>
                  \<lparr>memory = destroy rhs_copy' h1, object = (object s)(this := this')\<rparr>))
      else s)"

text \<open>\<open>operator=(SimpleVector&& rhs)\<close>: \<open>size_\<close> and \<open>capacity_\<close> of \<open>rhs\<close> stay as
  they are.\<close>

definition operator_assign_move :: "nat \<Rightarrow> nat \<Rightarrow> 'a program_state \<Rightarrow> 'a program_state" where
  "operator_assign_move this rhs s =
     (if this \<noteq> rhs then
        (case ArrayPtr_move_assign (data_m (object s this)) (data_m (object s rhs)) (memory s) of
           (d, d', h1) \<Rightarrow>
             \<lparr>memory = h1,
              object = (object s)
                (rhs := (object s rhs)\<lparr>data_m := d'\<rparr>,
                 this := \<lparr>size_m = size_m (object s rhs),
                          capacity_m = capacity_m (object s rhs), data_m = d\<rparr>)\<rparr>)
      else s)"

section \<open>Well-formed states\<close>

text \<open>
  The store: every array has a non-null address below the next address to be given out.
  A vector: its size is at most its capacity, and it owns an array of \<open>capacity_\<close> slots,
  or none when the capacity is 0.
\<close>

definition heap_ok :: "'a heap \<Rightarrow> bool" where
  "heap_ok h \<longleftrightarrow> 0 < fresh h \<and> (\<forall>a \<in> dom (blocks h). 0 < a \<and> a < fresh h)"

definition valid :: "'a heap \<Rightarrow> SimpleVector \<Rightarrow> bool" where
  "valid h v \<longleftrightarrow>
     size_m v \<le> capacity_m v \<and>
     (if capacity_m v = 0 then data_m v = 0
      else (case blocks h (data_m v) of
              None \<Rightarrow> False
            | Some xs \<Rightarrow> length xs = capacity_m v))"


section \<open>Sequences of calls\<close>

text \<open>
  A call of one of the modifiers of a vector, or an assignment to one of its elements through
  the reference that \<open>operator[]\<close> or \<open>At\<close> returns. The argument of a copying
  \<open>PushBack\<close> or \<open>Insert\<close> is any reference; the argument of a moving one is a temporary
  of the caller. A failed assertion or an exception ends the run.
\<close>

datatype 'a call =
    Call_PushBack "'a reference"
  | Call_PushBack_move 'a
  | Call_Insert ptr "'a reference"
  | Call_Insert_move ptr 'a
  | Call_Erase ptr
  | Call_PopBack
  | Call_Clear
  | Call_Resize nat
  | Call_Reserve nat
  | Call_Index_assign nat 'a
  | Call_At_assign nat 'a

fun apply_call ::
  "'a element_type \<Rightarrow> 'a call \<Rightarrow> SimpleVector \<times> 'a heap \<Rightarrow> error + SimpleVector \<times> 'a heap" where
  "apply_call T (Call_PushBack item) (v, h) = Inr (PushBack T item v h)"
| "apply_call T (Call_PushBack_move x) (v, h) = Inr (PushBack_move T (Outside x) v h)"
| "apply_call T (Call_Insert pos val) (v, h) =
     (case Insert T pos val v h of Inl e \<Rightarrow> Inl e | Inr (r, v', h') \<Rightarrow> Inr (v', h'))"
| "apply_call T (Call_Insert_move pos x) (v, h) =
     (case Insert_move T pos (Outside x) v h of
        Inl e \<Rightarrow> Inl e | Inr (r, v', h') \<Rightarrow> Inr (v', h'))"
| "apply_call T (Call_Erase pos) (v, h) =
     (case Erase T pos v h of Inl e \<Rightarrow> Inl e | Inr (r, v', h') \<Rightarrow> Inr (v', h'))"
| "apply_call T Call_PopBack (v, h) =
     (case PopBack v of Inl e \<Rightarrow> Inl e | Inr v' \<Rightarrow> Inr (v', h))"
| "apply_call T Call_Clear (v, h) = Inr (Clear v, h)"
| "apply_call T (Call_Resize n) (v, h) = Inr (Resize T n v h)"
| "apply_call T (Call_Reserve n) (v, h) = Inr (SimpleVector_Reserve T n v h)"
| "apply_call T (Call_Index_assign i x) (v, h) =
     (case Index i v of Inl e \<Rightarrow> Inl e | Inr p \<Rightarrow> Inr (v, store p x h))"
| "apply_call T (Call_At_assign i x) (v, h) =
     (case At i v of Inl e \<Rightarrow> Inl e | Inr p \<Rightarrow> Inr (v, store p x h))"

fun apply_calls ::
  "'a element_type \<Rightarrow> 'a call list \<Rightarrow> SimpleVector \<times> 'a heap \<Rightarrow> error + SimpleVector \<times> 'a heap" where
  "apply_calls T [] s = Inr s"
| "apply_calls T (c # cs) s = (case apply_call T c s of Inl e \<Rightarrow> Inl e | Inr s' \<Rightarrow> apply_calls T cs s')"

section \<open>Auxiliary notions for the proofs\<close>

text \<open>What \<open>std::move\<close> and \<open>std::move_backward\<close> do to one array when source and target
  overlap: the range \<open>[it + 1, it + 1 + n)\<close> goes one slot to the left, the range
  \<open>[sz - n, sz)\<close> one slot to the right.\<close>

definition shift_left :: "('a \<Rightarrow> 'a) \<Rightarrow> nat \<Rightarrow> nat \<Rightarrow> 'a list \<Rightarrow> 'a list" where
  "shift_left m it n xs =
     fold (\<lambda>i zs. zs[it + i := zs ! Suc (it + i), Suc (it + i) := m (zs ! Suc (it + i))]) [0..<n] xs"

definition shift_right :: "('a \<Rightarrow> 'a) \<Rightarrow> nat \<Rightarrow> nat \<Rightarrow> 'a list \<Rightarrow> 'a list" where
  "shift_right m sz n xs =
     fold (\<lambda>i zs. zs[sz - i := zs ! (sz - Suc i), sz - Suc i := m (zs ! (sz - Suc i))])
       [0..<n] xs"


text \<open>The value of the object that a reference is bound to, in a given store.\<close>

fun value_of :: "'a heap \<Rightarrow> 'a reference \<Rightarrow> 'a" where
  "value_of h (Slot p) = deref h p"
| "value_of h (Outside x) = x"

text \<open>A reference that is bound to an object outside the buffer of \<open>v\<close>: an object
  outside the arrays, or a slot of another array.\<close>

definition refers_outside :: "'a heap \<Rightarrow> SimpleVector \<Rightarrow> 'a reference \<Rightarrow> bool" where
  "refers_outside h v item \<longleftrightarrow>
     (case item of
        Outside x \<Rightarrow> True
      | Slot p \<Rightarrow>
          fst p \<noteq> data_m v \<and>
          (case blocks h (fst p) of None \<Rightarrow> False | Some ys \<Rightarrow> snd p < length ys))"

text \<open>Two vectors do not share a buffer; a call on \<open>v\<close> touches only the buffer of
  \<open>v\<close> and newly allocated arrays.\<close>

definition separated :: "SimpleVector \<Rightarrow> SimpleVector \<Rightarrow> bool" where
  "separated v w \<longleftrightarrow> capacity_m v = 0 \<or> capacity_m w = 0 \<or> data_m v \<noteq> data_m w"

definition framed :: "'a heap \<Rightarrow> SimpleVector \<Rightarrow> 'a heap \<Rightarrow> SimpleVector \<Rightarrow> bool" where
  "framed h v h' v' \<longleftrightarrow>
     heap_ok h' \<and> valid h' v' \<and>
     (\<forall>a. a \<noteq> data_m v \<longrightarrow> a \<noteq> fresh h \<longrightarrow> blocks h' a = blocks h a) \<and>
     (data_m v' = data_m v \<or> data_m v' = fresh h)"


section \<open>Example values\<close>

text \<open>The element type \<open>int\<close> and a store without arrays, for concrete runs.\<close>

definition int_type :: "int element_type" where
  "int_type = \<lparr>Type_default = 0, moved_from = (\<lambda>x. x)\<rparr>"

definition empty_heap :: "'a heap" where
  "empty_heap = \<lparr>blocks = Map.empty, fresh = 1\<rparr>"

text \<open>The element type \<open>std::string\<close>: a string that was moved from is empty.\<close>

definition string_type :: "string element_type" where
  "string_type = \<lparr>Type_default = [], moved_from = (\<lambda>x. [])\<rparr>"

text \<open>Two vector objects, at the addresses 0 and 1, with buffers of their own.\<close>

definition two_vectors :: "int program_state" where
  "two_vectors =
     (case SimpleVector_init int_type [1, 2, 3] empty_heap of
        (v0, h1) \<Rightarrow>
          (case SimpleVector_init int_type [4, 5] h1 of
             (v1, h2) \<Rightarrow>
               \<lparr>memory = h2, object = (\<lambda>_. SimpleVector_default)(0 := v0, 1 := v1)\<rparr>))"

section \<open>Reading and writing the store\<close>


lemma blocks_store:
  "blocks h a = Some xs \<Longrightarrow> blocks (store (a, i) x h) = (blocks h)(a \<mapsto> xs[i := x])"
  by (simp add: store_def)

lemma fresh_store [simp]: "fresh (store p x h) = fresh h"
  by (simp add: store_def split: option.split)

lemma deref_Some: "blocks h a = Some xs \<Longrightarrow> deref h (a, i) = xs ! i"
  by (simp add: deref_def block_def)

lemma fresh_move_elem [simp]: "fresh (move_elem T p q h) = fresh h"
  by (simp add: move_elem_def Let_def)

lemma blocks_move_elem_same:
  "blocks h a = Some xs \<Longrightarrow>
   blocks (move_elem T (a, s) (a, d) h) =
     (blocks h)(a \<mapsto> xs[d := xs ! s, s := moved_from T (xs ! s)])"
  by (simp add: move_elem_def blocks_store deref_Some Let_def)

lemma blocks_move_elem_diff:
  "blocks h p = Some xs \<Longrightarrow> blocks h q = Some ys \<Longrightarrow> p \<noteq> q \<Longrightarrow>
   blocks (move_elem T (p, s) (q, d) h) =
     (blocks h)(q \<mapsto> ys[d := xs ! s], p \<mapsto> xs[s := moved_from T (xs ! s)])"
  by (simp add: move_elem_def blocks_store deref_Some Let_def)

lemma fresh_fold_move_elem [simp]:
  "fresh (fold (\<lambda>i. move_elem T (f i) (g i)) js h) = fresh h"
  by (induction js arbitrary: h) simp_all

lemma fresh_fold_store [simp]:
  "fresh (fold (\<lambda>i. store (f i) (g i)) js h) = fresh h"
  by (induction js arbitrary: h) simp_all

lemma fold_move_same:
  "blocks h a = Some xs \<Longrightarrow>
   blocks (fold (\<lambda>i. move_elem T (a, f i) (a, g i)) js h) =
     (blocks h)(a \<mapsto>
        fold (\<lambda>i zs. zs[g i := zs ! f i, f i := moved_from T (zs ! f i)]) js xs)"
proof (induction js arbitrary: h xs)
  case Nil
  then show ?case by (simp add: map_upd_triv)
next
  case (Cons j js)
  let ?xs = "xs[g j := xs ! f j, f j := moved_from T (xs ! f j)]"
  let ?h = "move_elem T (a, f j) (a, g j) h"
  have *: "blocks ?h = (blocks h)(a \<mapsto> ?xs)"
    using Cons.prems by (rule blocks_move_elem_same)
  then have "blocks ?h a = Some ?xs" by simp
  then have "blocks (fold (\<lambda>i. move_elem T (a, f i) (a, g i)) js ?h) =
      (blocks ?h)(a \<mapsto>
        fold (\<lambda>i zs. zs[g i := zs ! f i, f i := moved_from T (zs ! f i)]) js ?xs)"
    by (rule Cons.IH)
  also have "\<dots> = (blocks h)(a \<mapsto>
        fold (\<lambda>i zs. zs[g i := zs ! f i, f i := moved_from T (zs ! f i)]) js ?xs)"
    unfolding * by simp
  finally show ?case by (simp only: fold.simps o_apply prod.case)
qed

lemma fold_move_diff:
  "blocks h p = Some xs \<Longrightarrow> blocks h q = Some ys \<Longrightarrow> p \<noteq> q \<Longrightarrow>
   blocks (fold (\<lambda>i. move_elem T (p, f i) (q, g i)) js h) =
     (blocks h)
        (q \<mapsto> snd (fold (\<lambda>i (xs, ys). (xs[f i := moved_from T (xs ! f i)], ys[g i := xs ! f i]))
                     js (xs, ys)),
         p \<mapsto> fst (fold (\<lambda>i (xs, ys). (xs[f i := moved_from T (xs ! f i)], ys[g i := xs ! f i]))
                     js (xs, ys)))"
proof (induction js arbitrary: h xs ys)
  case Nil
  then show ?case by (simp add: map_upd_triv)
next
  case (Cons j js)
  let ?xs = "xs[f j := moved_from T (xs ! f j)]"
  let ?ys = "ys[g j := xs ! f j]"
  let ?h = "move_elem T (p, f j) (q, g j) h"
  have *: "blocks ?h = (blocks h)(q \<mapsto> ?ys, p \<mapsto> ?xs)"
    using Cons.prems by (rule blocks_move_elem_diff)
  then have "blocks ?h p = Some ?xs" "blocks ?h q = Some ?ys" using Cons.prems(3) by simp_all
  then have "blocks (fold (\<lambda>i. move_elem T (p, f i) (q, g i)) js ?h) =
     (blocks ?h)
        (q \<mapsto> snd (fold (\<lambda>i (xs, ys). (xs[f i := moved_from T (xs ! f i)], ys[g i := xs ! f i]))
                     js (?xs, ?ys)),
         p \<mapsto> fst (fold (\<lambda>i (xs, ys). (xs[f i := moved_from T (xs ! f i)], ys[g i := xs ! f i]))
                     js (?xs, ?ys)))"
    using Cons.prems(3) by (rule Cons.IH)
  also have "\<dots> = (blocks h)
        (q \<mapsto> snd (fold (\<lambda>i (xs, ys). (xs[f i := moved_from T (xs ! f i)], ys[g i := xs ! f i]))
                     js (?xs, ?ys)),
         p \<mapsto> fst (fold (\<lambda>i (xs, ys). (xs[f i := moved_from T (xs ! f i)], ys[g i := xs ! f i]))
                     js (?xs, ?ys)))"
    unfolding * using Cons.prems(3) by (simp add: fun_upd_twist [of p q])
  finally show ?case by (simp only: fold.simps o_apply prod.case)
qed

lemma fold_store:
  "blocks h a = Some xs \<Longrightarrow>
   blocks (fold (\<lambda>i. store (a, f i) (g i)) js h) =
     (blocks h)(a \<mapsto> fold (\<lambda>i zs. zs[f i := g i]) js xs)"
proof (induction js arbitrary: h xs)
  case Nil
  then show ?case by (simp add: map_upd_triv)
next
  case (Cons j js)
  have *: "blocks (store (a, f j) (g j) h) = (blocks h)(a \<mapsto> xs[f j := g j])"
    using Cons.prems by (rule blocks_store)
  then have "blocks (store (a, f j) (g j) h) a = Some (xs[f j := g j])" by simp
  then have "blocks (fold (\<lambda>i. store (a, f i) (g i)) js (store (a, f j) (g j) h)) =
      (blocks (store (a, f j) (g j) h))(a \<mapsto> fold (\<lambda>i zs. zs[f i := g i]) js (xs[f j := g j]))"
    by (rule Cons.IH)
  also have "\<dots> = (blocks h)(a \<mapsto> fold (\<lambda>i zs. zs[f i := g i]) js (xs[f j := g j]))"
    unfolding * by simp
  finally show ?case by (simp only: fold.simps o_apply prod.case)
qed

section \<open>The loops on lists\<close>

lemma update_middle:
  "length B = n \<Longrightarrow> d + n < length ys \<Longrightarrow>
   (take d ys @ B @ drop (d + n) ys)[d + n := x] = take d ys @ (B @ [x]) @ drop (d + Suc n) ys"
  by (simp add: list_update_append min_def Cons_nth_drop_Suc [symmetric] )

lemma generate_list:
  "d + n \<le> length ys \<Longrightarrow>
   fold (\<lambda>i zs. zs[d + i := g i]) [0..<n] ys = take d ys @ map g [0..<n] @ drop (d + n) ys"
proof (induction n)
  case 0
  then show ?case by simp
next
  case (Suc n)
  then show ?case using update_middle [of "map g [0..<n]" n d ys "g n"] by simp
qed

lemma relocate_lists:
  "s + n \<le> length xs \<Longrightarrow> d + n \<le> length ys \<Longrightarrow>
   fold (\<lambda>i (xs, ys). (xs[s + i := m (xs ! (s + i))], ys[d + i := xs ! (s + i)])) [0..<n] (xs, ys) =
     (take s xs @ map m (take n (drop s xs)) @ drop (s + n) xs,
      take d ys @ take n (drop s xs) @ drop (d + n) ys)"
proof (induction n)
  case 0
  then show ?case by simp
next
  case (Suc n)
  have x: "(take s xs @ map m (take n (drop s xs)) @ drop (s + n) xs) ! (s + n) = xs ! (s + n)"
    using Suc.prems by (simp add: nth_append)
  have t: "take (Suc n) (drop s xs) = take n (drop s xs) @ [xs ! (s + n)]"
    using Suc.prems by (simp add: take_Suc_conv_app_nth)
  show ?case
    using Suc update_middle [of "take n (drop s xs)" n d ys "xs ! (s + n)"]
      update_middle [of "map m (take n (drop s xs))" n s xs "m (xs ! (s + n))"]
    by (simp add: x t)
qed



lemma shift_left_Suc:
  "shift_left m it (Suc n) xs =
     (shift_left m it n xs)
       [it + n := shift_left m it n xs ! Suc (it + n),
        Suc (it + n) := m (shift_left m it n xs ! Suc (it + n))]"
  by (simp add: shift_left_def)

lemma shift_left_nth:
  "it + n < length xs \<Longrightarrow>
   length (shift_left m it n xs) = length xs \<and>
   (\<forall>k. k < it \<longrightarrow> shift_left m it n xs ! k = xs ! k) \<and>
   (\<forall>k. it \<le> k \<and> k < it + n \<longrightarrow> shift_left m it n xs ! k = xs ! Suc k) \<and>
   (\<forall>k. it + n < k \<longrightarrow> shift_left m it n xs ! k = xs ! k)"
proof (induction n)
  case 0
  then show ?case by (auto simp: shift_left_def)
next
  case (Suc n)
  then show ?case by (auto simp: shift_left_Suc nth_list_update)
qed

lemma shift_left_list:
  assumes "it + n < length xs"
  shows "length (shift_left m it n xs) = length xs"
    and "take (it + n) (shift_left m it n xs) = take it xs @ take n (drop (Suc it) xs)"
    and "drop (Suc (it + n)) (shift_left m it n xs) = drop (Suc (it + n)) xs"
proof -
  note * = shift_left_nth [OF assms(1), of m]
  show "length (shift_left m it n xs) = length xs" using * by simp
  show "take (it + n) (shift_left m it n xs) = take it xs @ take n (drop (Suc it) xs)"
    using * assms(1) by (intro nth_equalityI) (auto simp: nth_append min_def)
  show "drop (Suc (it + n)) (shift_left m it n xs) = drop (Suc (it + n)) xs"
    using * assms(1) by (intro nth_equalityI) auto
qed

lemma shift_right_Suc:
  "shift_right m sz (Suc n) xs =
     (shift_right m sz n xs)
       [sz - n := shift_right m sz n xs ! (sz - Suc n),
        sz - Suc n := m (shift_right m sz n xs ! (sz - Suc n))]"
  by (simp add: shift_right_def)

lemma shift_right_nth:
  "n \<le> sz \<Longrightarrow> sz < length xs \<Longrightarrow>
   length (shift_right m sz n xs) = length xs \<and>
   (\<forall>k. k < sz - n \<longrightarrow> shift_right m sz n xs ! k = xs ! k) \<and>
   (\<forall>k. sz - n < k \<and> k \<le> sz \<longrightarrow> shift_right m sz n xs ! k = xs ! (k - 1)) \<and>
   (\<forall>k. sz < k \<longrightarrow> shift_right m sz n xs ! k = xs ! k)"
proof (induction n)
  case 0
  then show ?case by (auto simp: shift_right_def)
next
  case (Suc n)
  then show ?case by (auto simp: shift_right_Suc nth_list_update)
qed

lemma shift_right_insert:
  assumes "it \<le> sz" "sz < length xs"
  shows "(shift_right m sz (sz - it) xs)[it := x] =
           take it xs @ x # take (sz - it) (drop it xs) @ drop (Suc sz) xs"
proof -
  note * = shift_right_nth [of "sz - it" sz xs m]
  show ?thesis
    using * assms by (intro nth_equalityI) (auto simp: nth_append nth_list_update nth_Cons')
qed


section \<open>The algorithms on the store\<close>

lemma ptr_simps [simp]:
  "ptr_add (Get a) n = (a, n)"
  "ptr_add (a, k) n = (a, k + n)"
  "ptr_diff (a, k) (b, j) = k - j"
  "Get a = (a, 0)"
  by (simp_all add: ptr_add_def Get_def ptr_diff_def)

lemma heap_eqI: "blocks h = blocks h' \<Longrightarrow> fresh h = fresh h' \<Longrightarrow> h = (h' :: 'a heap)"
  by simp

lemma blocks_store_cases:
  "blocks (store p x h) =
     (case blocks h (fst p) of None \<Rightarrow> blocks h
      | Some xs \<Rightarrow> (blocks h)(fst p \<mapsto> xs[snd p := x]))"
  by (simp add: store_def split: option.split)

lemma list_update_copy: "ys[d := ys ! s, s := ys ! s] = ys[d := ys ! s]"
proof (rule nth_equalityI)
  show "length (ys[d := ys ! s, s := ys ! s]) = length (ys[d := ys ! s])" by simp
next
  fix i assume "i < length (ys[d := ys ! s, s := ys ! s])"
  then have i: "i < length ys" by simp
  show "ys[d := ys ! s, s := ys ! s] ! i = ys[d := ys ! s] ! i"
  proof (cases "i = s")
    case True
    with i show ?thesis by (cases "d = s") simp_all
  next
    case False
    then show ?thesis by simp
  qed
qed

lemma copy_elem_move_elem:
  "copy_elem src dst = move_elem (T\<lparr>moved_from := \<lambda>x. x\<rparr>) src dst"
proof (rule ext, rule heap_eqI)
  fix h :: "'a heap"
  show "fresh (copy_elem src dst h) = fresh (move_elem (T\<lparr>moved_from := \<lambda>x. x\<rparr>) src dst h)"
    by (simp add: copy_elem_def)
  show "blocks (copy_elem src dst h) = blocks (move_elem (T\<lparr>moved_from := \<lambda>x. x\<rparr>) src dst h)"
  proof (cases "blocks h (fst dst)")
    case None
    then show ?thesis
      by (cases "blocks h (fst src)")
        (auto simp: copy_elem_def move_elem_def blocks_store_cases deref_def block_def map_upd_triv Let_def)
  next
    case (Some ys)
    show ?thesis
    proof (cases "fst src = fst dst")
      case True
      with Some show ?thesis
        by (simp add: copy_elem_def move_elem_def blocks_store_cases deref_def block_def
            list_update_copy Let_def)
    next
      case False
      with Some show ?thesis
        by (cases "blocks h (fst src)")
          (auto simp: copy_elem_def move_elem_def blocks_store_cases deref_def block_def
            map_upd_triv Let_def)
    qed
  qed
qed

lemma std_copy_std_move:
  "std_copy first last' d_first h = std_move (T\<lparr>moved_from := \<lambda>x. x\<rparr>) first last' d_first h"
  by (simp add: std_copy_def std_move_def copy_elem_move_elem [where T = T])

lemma std_copy_backward_std_move_backward:
  "std_copy_backward first last' d_last h =
     std_move_backward (T\<lparr>moved_from := \<lambda>x. x\<rparr>) first last' d_last h"
  by (simp add: std_copy_backward_def std_move_backward_def copy_elem_move_elem [where T = T])

lemma fresh_std_move [simp]: "fresh (std_move T first last' d h) = fresh h"
  by (simp add: std_move_def)

lemma fresh_std_move_backward [simp]: "fresh (std_move_backward T first last' d h) = fresh h"
  by (simp add: std_move_backward_def)

lemma fresh_std_generate [simp]: "fresh (std_generate first last' g h) = fresh h"
  by (simp add: std_generate_def)

lemma std_move_nop: "e \<le> s \<Longrightarrow> std_move T (p, s) (p', e) d h = h"
  by (simp add: std_move_def)

lemma blocks_std_move_diff:
  assumes "blocks h p = Some xs" "blocks h q = Some ys" "p \<noteq> q"
    and "s \<le> e" "e \<le> length xs" "d + (e - s) \<le> length ys"
  shows "blocks (std_move T (p, s) (p, e) (q, d) h) =
     (blocks h)
       (q \<mapsto> take d ys @ take (e - s) (drop s xs) @ drop (d + (e - s)) ys,
        p \<mapsto> take s xs @ map (moved_from T) (take (e - s) (drop s xs)) @ drop e xs)"
proof -
  have "s + (e - s) \<le> length xs" using assms by simp
  from relocate_lists [OF this assms(6), of "moved_from T"] assms(4)
  show ?thesis
    by (simp add: std_move_def
        fold_move_diff [OF assms(1-3), where f = "\<lambda>i. s + i" and g = "\<lambda>i. d + i"])
qed

lemma blocks_std_move_left:
  assumes "blocks h a = Some xs"
  shows "blocks (std_move T (a, Suc it) (a, e) (a, it) h) =
     (blocks h)(a \<mapsto> shift_left (moved_from T) it (e - Suc it) xs)"
  by (simp add: std_move_def shift_left_def
      fold_move_same [OF assms, where f = "\<lambda>i. Suc (it + i)" and g = "\<lambda>i. it + i"])

lemma blocks_std_move_backward_right:
  assumes "blocks h a = Some xs"
  shows "blocks (std_move_backward T (a, it) (a, sz) (a, Suc sz) h) =
     (blocks h)(a \<mapsto> shift_right (moved_from T) sz (sz - it) xs)"
  by (simp add: std_move_backward_def shift_right_def
      fold_move_same [OF assms, where f = "\<lambda>i. sz - Suc i" and g = "\<lambda>i. sz - i"])

lemma blocks_std_generate:
  assumes "blocks h a = Some ys" "d \<le> e" "e \<le> length ys"
  shows "blocks (std_generate (a, d) (a, e) g h) =
     (blocks h)(a \<mapsto> take d ys @ map g [0..<e - d] @ drop e ys)"
proof -
  have "d + (e - d) \<le> length ys" using assms by simp
  from generate_list [OF this, of g] assms(2)
  show ?thesis
    by (simp add: std_generate_def fold_store [OF assms(1), where f = "\<lambda>i. d + i"])
qed

lemma std_generate_nop: "e \<le> d \<Longrightarrow> std_generate (p, d) (p', e) g h = h"
  by (simp add: std_generate_def)

lemma std_fill_std_generate: "std_fill first last' x h = std_generate first last' (\<lambda>_. x) h"
  by (simp add: std_fill_def std_generate_def)

lemma std_copy_init_std_generate:
  "std_copy_init init d_first h =
     std_generate d_first (ptr_add d_first (length init)) (\<lambda>i. init ! i) h"
  by (simp add: std_copy_init_def std_generate_def ptr_add_def ptr_diff_def)


section \<open>Facts about well-formed states\<close>

lemma heap_ok_null: "heap_ok h \<Longrightarrow> blocks h 0 = None"
  by (auto simp: heap_ok_def)

lemma heap_ok_fresh_pos: "heap_ok h \<Longrightarrow> 0 < fresh h"
  by (simp add: heap_ok_def)

lemma heap_ok_live: "heap_ok h \<Longrightarrow> blocks h a = Some xs \<Longrightarrow> 0 < a \<and> a < fresh h"
  by (auto simp: heap_ok_def)

lemma valid_size: "valid h v \<Longrightarrow> size_m v \<le> capacity_m v"
  by (simp add: valid_def)

lemma valid_buffer:
  "valid h v \<Longrightarrow> 0 < capacity_m v \<Longrightarrow>
   blocks h (data_m v) = Some (block h (data_m v)) \<and> length (block h (data_m v)) = capacity_m v"
  by (auto simp: valid_def block_def split: option.splits)

lemma valid_empty: "valid h v \<Longrightarrow> capacity_m v = 0 \<Longrightarrow> data_m v = 0 \<and> size_m v = 0"
  by (auto simp: valid_def)

lemma valid_data_not_fresh: "heap_ok h \<Longrightarrow> valid h v \<Longrightarrow> data_m v \<noteq> fresh h"
  by (cases "capacity_m v = 0")
    (auto simp: valid_empty heap_ok_def dest!: valid_buffer)

lemma valid_length_block: "heap_ok h \<Longrightarrow> valid h v \<Longrightarrow> length (block h (data_m v)) = capacity_m v"
  by (cases "capacity_m v = 0")
    (auto simp: valid_empty heap_ok_null block_def dest: valid_buffer)

lemma length_elements: "heap_ok h \<Longrightarrow> valid h v \<Longrightarrow> length (elements h v) = size_m v"
  by (simp add: elements_def valid_length_block valid_size)

lemma blocks_ArrayPtr_delete [simp]:
  "blocks (ArrayPtr_delete a h) = (blocks h)(a := None)"
  "fresh (ArrayPtr_delete a h) = fresh h"
  by (simp_all add: ArrayPtr_delete_def)

lemma ArrayPtr_new_pos:
  "0 < n \<Longrightarrow> fst (ArrayPtr_new T n h) = fresh h"
  "0 < n \<Longrightarrow> blocks (snd (ArrayPtr_new T n h)) =
     (blocks h)(fresh h \<mapsto> replicate n (Type_default T))"
  "0 < n \<Longrightarrow> fresh (snd (ArrayPtr_new T n h)) = Suc (fresh h)"
  by (simp_all add: ArrayPtr_new_def)

text \<open>Allocating a larger buffer and moving the elements into it.\<close>

lemma relocate_all:
  fixes T :: "'a element_type" and h :: "'a heap" and v nc
  assumes ok: "heap_ok h" and v: "valid h v" and nc: "size_m v \<le> nc" "0 < nc"
  defines "h2 \<equiv> std_move T (data_m v, 0) (data_m v, size_m v) (fresh h, 0)
                   (snd (ArrayPtr_new T nc h))"
  shows "blocks h2 (fresh h) =
           Some (elements h v @ replicate (nc - size_m v) (Type_default T))"
    and "(blocks h2)(data_m v := None) =
           (blocks h)(data_m v := None,
              fresh h \<mapsto> elements h v @ replicate (nc - size_m v) (Type_default T))"
    and "fresh h2 = Suc (fresh h)"
proof -
  let ?h1 = "snd (ArrayPtr_new T nc h)"
  let ?q = "fresh h"
  let ?p = "data_m v"
  let ?ys = "replicate nc (Type_default T)"
  have pq: "?p \<noteq> ?q" using ok v by (rule valid_data_not_fresh)
  have h1: "blocks ?h1 = (blocks h)(?q \<mapsto> ?ys)" using nc by (simp add: ArrayPtr_new_pos)
  show "fresh h2 = Suc (fresh h)" using nc by (simp add: h2_def ArrayPtr_new_pos)
  have "blocks h2 ?q = Some (elements h v @ replicate (nc - size_m v) (Type_default T)) \<and>
        (blocks h2)(?p := None) =
           (blocks h)(?p := None,
              ?q \<mapsto> elements h v @ replicate (nc - size_m v) (Type_default T))"
  proof (cases "size_m v = 0")
    case True
    then have "h2 = ?h1" by (simp add: h2_def std_move_nop)
    with True h1 pq show ?thesis by (simp add: elements_def fun_upd_twist)
  next
    case False
    then have cap: "0 < capacity_m v" using valid_size [OF v] by simp
    let ?xs = "block h ?p"
    from valid_buffer [OF v cap] have xs: "blocks h ?p = Some ?xs" "length ?xs = capacity_m v"
      by simp_all
    have 1: "blocks ?h1 ?p = Some ?xs" using xs pq by (simp add: h1)
    have 2: "blocks ?h1 ?q = Some ?ys" by (simp add: h1)
    have "blocks h2 =
       (blocks ?h1)
         (?q \<mapsto> take 0 ?ys @ take (size_m v - 0) (drop 0 ?xs) @ drop (0 + (size_m v - 0)) ?ys,
          ?p \<mapsto> take 0 ?xs @ map (moved_from T) (take (size_m v - 0) (drop 0 ?xs)) @
                 drop (size_m v) ?xs)"
      unfolding h2_def using xs valid_size [OF v] nc
      by (intro blocks_std_move_diff [OF 1 2 pq]) simp_all
    then show ?thesis using pq by (simp add: h1 elements_def fun_upd_twist)
  qed
  then show "blocks h2 (fresh h) =
           Some (elements h v @ replicate (nc - size_m v) (Type_default T))"
    and "(blocks h2)(data_m v := None) =
           (blocks h)(data_m v := None,
              fresh h \<mapsto> elements h v @ replicate (nc - size_m v) (Type_default T))"
    by simp_all
qed


lemma store_after_relocate:
  assumes "blocks h2 q = Some B" "(blocks h2)(p := None) = (blocks h)(p := None, q \<mapsto> B)" "p \<noteq> q"
  shows "(blocks (store (q, k) x h2))(p := None) = (blocks h)(p := None, q \<mapsto> B[k := x])"
proof -
  have "(blocks (store (q, k) x h2))(p := None) = ((blocks h2)(p := None))(q \<mapsto> B[k := x])"
    using assms(1,3) by (simp add: blocks_store fun_upd_twist)
  then show ?thesis by (simp add: assms(2))
qed

lemma PushBack_full:
  fixes T :: "'a element_type" and h :: "'a heap" and v x
  assumes ok: "heap_ok h" and v: "valid h v" and full: "size_m v = capacity_m v"
  defines "nc \<equiv> if capacity_m v = 0 then 1 else capacity_m v * 2"
  shows "fst (PushBack T (Outside x) v h) = \<lparr>size_m = Suc (size_m v), capacity_m = nc, data_m = fresh h\<rparr>"
    and "blocks (snd (PushBack T (Outside x) v h)) =
           (blocks h)(data_m v := None,
              fresh h \<mapsto> elements h v @ x # replicate (nc - Suc (size_m v)) (Type_default T))"
    and "fresh (snd (PushBack T (Outside x) v h)) = Suc (fresh h)"
proof -
  have nc: "size_m v \<le> nc" "0 < nc" "size_m v < nc" using full by (auto simp: nc_def)
  have pq: "data_m v \<noteq> fresh h" using ok v by (rule valid_data_not_fresh)
  note r = relocate_all [OF ok v nc(1,2), of T]
  have upd: "(elements h v @ replicate (nc - size_m v) (Type_default T))[size_m v := x] =
      elements h v @ x # replicate (nc - Suc (size_m v)) (Type_default T)"
    using nc(3) length_elements [OF ok v]
    by (cases "nc - size_m v") (simp_all add: list_update_append)
  show "fst (PushBack T (Outside x) v h) = \<lparr>size_m = Suc (size_m v), capacity_m = nc, data_m = fresh h\<rparr>"
    using full nc(2)
    by (simp add: PushBack_def Let_def split_beta ArrayPtr_swap_def ArrayPtr_new_pos nc_def)
  show "fresh (snd (PushBack T (Outside x) v h)) = Suc (fresh h)"
    using full nc(2)
    by (simp add: PushBack_def Let_def split_beta ArrayPtr_swap_def ArrayPtr_new_pos nc_def)
  have "blocks (snd (PushBack T (Outside x) v h)) =
     (blocks (store (fresh h, size_m v) x
        (std_move T (data_m v, 0) (data_m v, size_m v) (fresh h, 0)
           (snd (ArrayPtr_new T nc h)))))(data_m v := None)"
    using full nc(2)
    by (simp add: PushBack_def Let_def split_beta ArrayPtr_swap_def ArrayPtr_new_pos nc_def)
  also have "\<dots> = (blocks h)(data_m v := None,
      fresh h \<mapsto> (elements h v @ replicate (nc - size_m v) (Type_default T))[size_m v := x])"
    using r(1,2) pq by (rule store_after_relocate)
  finally show "blocks (snd (PushBack T (Outside x) v h)) =
           (blocks h)(data_m v := None,
              fresh h \<mapsto> elements h v @ x # replicate (nc - Suc (size_m v)) (Type_default T))"
    by (simp only: upd)
qed

lemma PushBack_room:
  assumes ok: "heap_ok h" and v: "valid h v" and room: "size_m v \<noteq> capacity_m v"
  shows "fst (PushBack T (Outside x) v h) = v\<lparr>size_m := Suc (size_m v)\<rparr>"
    and "blocks (snd (PushBack T (Outside x) v h)) =
           (blocks h)(data_m v \<mapsto> (block h (data_m v))[size_m v := x])"
    and "fresh (snd (PushBack T (Outside x) v h)) = fresh h"
proof -
  have cap: "0 < capacity_m v" using room valid_size [OF v] by simp
  from valid_buffer [OF v cap] have xs: "blocks h (data_m v) = Some (block h (data_m v))"
    by simp
  show "fst (PushBack T (Outside x) v h) = v\<lparr>size_m := Suc (size_m v)\<rparr>"
    using room by (simp add: PushBack_def)
  show "fresh (snd (PushBack T (Outside x) v h)) = fresh h"
    using room by (simp add: PushBack_def)
  show "blocks (snd (PushBack T (Outside x) v h)) =
           (blocks h)(data_m v \<mapsto> (block h (data_m v))[size_m v := x])"
    using room by (simp add: PushBack_def blocks_store [OF xs])
qed


lemma generate_after_relocate:
  assumes "blocks h2 q = Some B" "(blocks h2)(p := None) = (blocks h)(p := None, q \<mapsto> B)" "p \<noteq> q"
    and "a \<le> e" "e \<le> length B"
  shows "(blocks (std_generate (q, a) (q, e) g h2))(p := None) =
           (blocks h)(p := None, q \<mapsto> take a B @ map g [0..<e - a] @ drop e B)"
proof -
  have "(blocks (std_generate (q, a) (q, e) g h2))(p := None) =
          ((blocks h2)(p := None))(q \<mapsto> take a B @ map g [0..<e - a] @ drop e B)"
    using assms(3) by (simp add: blocks_std_generate [OF assms(1,4,5)] fun_upd_twist)
  then show ?thesis by (simp add: assms(2))
qed

lemma Reserve_grow:
  fixes T :: "'a element_type" and h :: "'a heap"
  assumes ok: "heap_ok h" and v: "valid h v" and grow: "capacity_m v < nc"
  shows "fst (SimpleVector_Reserve T nc v h) = v\<lparr>data_m := fresh h, capacity_m := nc\<rparr>"
    and "blocks (snd (SimpleVector_Reserve T nc v h)) =
           (blocks h)(data_m v := None,
              fresh h \<mapsto> elements h v @ replicate (nc - size_m v) (Type_default T))"
    and "fresh (snd (SimpleVector_Reserve T nc v h)) = Suc (fresh h)"
proof -
  have nc: "size_m v \<le> nc" "0 < nc" using grow valid_size [OF v] by simp_all
  note r = relocate_all [OF ok v nc, of T]
  show "fst (SimpleVector_Reserve T nc v h) = v\<lparr>data_m := fresh h, capacity_m := nc\<rparr>"
    using grow nc(2)
    by (simp add: SimpleVector_Reserve_def Let_def split_beta ArrayPtr_swap_def ArrayPtr_new_pos)
  show "fresh (snd (SimpleVector_Reserve T nc v h)) = Suc (fresh h)"
    using grow nc(2)
    by (simp add: SimpleVector_Reserve_def Let_def split_beta ArrayPtr_swap_def ArrayPtr_new_pos)
  have "blocks (snd (SimpleVector_Reserve T nc v h)) =
     (blocks (std_move T (data_m v, 0) (data_m v, size_m v) (fresh h, 0)
           (snd (ArrayPtr_new T nc h))))(data_m v := None)"
    using grow nc(2)
    by (simp add: SimpleVector_Reserve_def Let_def split_beta ArrayPtr_swap_def ArrayPtr_new_pos)
  then show "blocks (snd (SimpleVector_Reserve T nc v h)) =
           (blocks h)(data_m v := None,
              fresh h \<mapsto> elements h v @ replicate (nc - size_m v) (Type_default T))"
    by (simp only: r(2))
qed

lemma Reserve_keep: "\<not> capacity_m v < nc \<Longrightarrow> SimpleVector_Reserve T nc v h = (v, h)"
  by (simp add: SimpleVector_Reserve_def)

lemma Resize_shrink: "ns \<le> size_m v \<Longrightarrow> Resize T ns v h = (v\<lparr>size_m := ns\<rparr>, h)"
  by (simp add: Resize_def)

lemma Resize_room:
  assumes ok: "heap_ok h" and v: "valid h v" and ns: "size_m v < ns" "ns \<le> capacity_m v"
  shows "fst (Resize T ns v h) = v\<lparr>size_m := ns\<rparr>"
    and "blocks (snd (Resize T ns v h)) =
           (blocks h)(data_m v \<mapsto>
              take (size_m v) (block h (data_m v)) @ replicate (ns - size_m v) (Type_default T) @
              drop ns (block h (data_m v)))"
    and "fresh (snd (Resize T ns v h)) = fresh h"
proof -
  have cap: "0 < capacity_m v" using ns by simp
  from valid_buffer [OF v cap] have xs: "blocks h (data_m v) = Some (block h (data_m v))"
    "length (block h (data_m v)) = capacity_m v"
    by simp_all
  show "fst (Resize T ns v h) = v\<lparr>size_m := ns\<rparr>"
    using ns by (simp add: Resize_def)
  show "fresh (snd (Resize T ns v h)) = fresh h"
    using ns by (simp add: Resize_def)
  have "size_m v \<le> ns" "ns \<le> length (block h (data_m v))" using ns xs by simp_all
  note g = blocks_std_generate [OF xs(1) this, of "\<lambda>_. Type_default T"]
  show "blocks (snd (Resize T ns v h)) =
           (blocks h)(data_m v \<mapsto>
              take (size_m v) (block h (data_m v)) @ replicate (ns - size_m v) (Type_default T) @
              drop ns (block h (data_m v)))"
    using ns by (simp add: Resize_def g map_replicate_const)
qed

lemma Resize_grow:
  fixes T :: "'a element_type" and h :: "'a heap"
  assumes ok: "heap_ok h" and v: "valid h v" and grow: "capacity_m v < ns"
  defines "nc \<equiv> max ns (capacity_m v * 2)"
  shows "fst (Resize T ns v h) = \<lparr>size_m = ns, capacity_m = nc, data_m = fresh h\<rparr>"
    and "blocks (snd (Resize T ns v h)) =
           (blocks h)(data_m v := None,
              fresh h \<mapsto> elements h v @ replicate (nc - size_m v) (Type_default T))"
    and "fresh (snd (Resize T ns v h)) = Suc (fresh h)"
proof -
  have nc: "size_m v \<le> nc" "0 < nc" "ns \<le> nc" "size_m v \<le> ns"
    using grow valid_size [OF v] by (simp_all add: nc_def)
  have pq: "data_m v \<noteq> fresh h" using ok v by (rule valid_data_not_fresh)
  have ns: "\<not> ns \<le> size_m v" "\<not> ns \<le> capacity_m v" using grow valid_size [OF v] by simp_all
  note r = relocate_all [OF ok v nc(1,2), of T]
  let ?B = "elements h v @ replicate (nc - size_m v) (Type_default T)"
  have len: "length (elements h v) = size_m v" using ok v by (rule length_elements)
  have same: "take (size_m v) ?B @ map (\<lambda>_. Type_default T) [0..<ns - size_m v] @ drop ns ?B = ?B"
    using nc len by (simp add: map_replicate_const replicate_add [symmetric])
  show "fst (Resize T ns v h) = \<lparr>size_m = ns, capacity_m = nc, data_m = fresh h\<rparr>"
    using ns nc(2)
    by (simp add: Resize_def Let_def split_beta ArrayPtr_swap_def ArrayPtr_new_pos nc_def)
  show "fresh (snd (Resize T ns v h)) = Suc (fresh h)"
    using ns nc(2)
    by (simp add: Resize_def Let_def split_beta ArrayPtr_swap_def ArrayPtr_new_pos nc_def)
  have "blocks (snd (Resize T ns v h)) =
     (blocks (std_generate (fresh h, size_m v) (fresh h, ns) (\<lambda>_. Type_default T)
        (std_move T (data_m v, 0) (data_m v, size_m v) (fresh h, 0)
           (snd (ArrayPtr_new T nc h)))))(data_m v := None)"
    using ns nc(2)
    by (simp add: Resize_def Let_def split_beta ArrayPtr_swap_def ArrayPtr_new_pos nc_def)
  also have "\<dots> = (blocks h)(data_m v := None, fresh h \<mapsto>
      take (size_m v) ?B @ map (\<lambda>_. Type_default T) [0..<ns - size_m v] @ drop ns ?B)"
    using r(1,2) pq nc(4) by (rule generate_after_relocate) (simp add: len nc)
  finally show "blocks (snd (Resize T ns v h)) =
           (blocks h)(data_m v := None,
              fresh h \<mapsto> elements h v @ replicate (nc - size_m v) (Type_default T))"
    by (simp only: same)
qed


lemma ptr_le_simps [simp]:
  "ptr_le (a, i) (b, j) \<longleftrightarrow> a = b \<and> i \<le> j"
  "ptr_less (a, i) (b, j) \<longleftrightarrow> a = b \<and> i < j"
  "begin_it v = (data_m v, 0)"
  "end_it v = (data_m v, size_m v)"
  by (simp_all add: ptr_le_def ptr_less_def begin_it_def end_it_def)

lemma ArrayPtr_new_moved_from [simp]:
  "ArrayPtr_new (T\<lparr>moved_from := m\<rparr>) n h = ArrayPtr_new T n h"
  by (simp add: ArrayPtr_new_def)

lemma copy_assign_move_assign:
  "copy_assign dst item h = move_assign (T\<lparr>moved_from := \<lambda>x. x\<rparr>) dst item h"
  by (cases item) (simp_all add: copy_elem_move_elem [where T = T])

lemma Insert_Insert_move:
  "Insert T pos item v h = Insert_move (T\<lparr>moved_from := \<lambda>x. x\<rparr>) pos item v h"
  unfolding Insert_def Insert_move_def ArrayPtr_new_moved_from
    std_copy_std_move [where T = T] std_copy_backward_std_move_backward [where T = T]
    copy_assign_move_assign [where T = T]
  by (rule refl)

lemma Insert_move_full:
  fixes T :: "'a element_type" and h :: "'a heap"
  assumes ok: "heap_ok h" and v: "valid h v" and full: "size_m v = capacity_m v"
    and it: "it \<le> size_m v"
  defines "nc \<equiv> if capacity_m v = 0 then 1 else capacity_m v * 2"
  shows "\<exists>h'. Insert_move T (data_m v, it) (Outside x) v h =
           Inr ((fresh h, it), \<lparr>size_m = Suc (size_m v), capacity_m = nc, data_m = fresh h\<rparr>, h') \<and>
           blocks h' = (blocks h)(data_m v := None,
              fresh h \<mapsto> take it (elements h v) @ x # drop it (elements h v) @
                replicate (nc - Suc (size_m v)) (Type_default T)) \<and>
           fresh h' = Suc (fresh h)"
proof -
  let ?p = "data_m v" and ?q = "fresh h" and ?d = "Type_default T"
  let ?h1 = "snd (ArrayPtr_new T nc h)"
  let ?h2 = "std_move T (?p, 0) (?p, it) (?q, 0) ?h1"
  let ?h3 = "store (?q, it) x ?h2"
  let ?h4 = "std_move T (?p, it) (?p, size_m v) (?q, Suc it) ?h3"
  have nc: "0 < nc" "size_m v < nc" using full by (auto simp: nc_def)
  have pq: "?p \<noteq> ?q" using ok v by (rule valid_data_not_fresh)
  have h1: "blocks ?h1 = (blocks h)(?q \<mapsto> replicate nc ?d)" using nc by (simp add: ArrayPtr_new_pos)
  have res: "Insert_move T (?p, it) (Outside x) v h =
      Inr ((?q, it), \<lparr>size_m = Suc (size_m v), capacity_m = nc, data_m = ?q\<rparr>,
           ArrayPtr_delete ?p ?h4)"
    using full it nc(1)
    by (simp add: Insert_move_def Let_def split_beta ArrayPtr_swap_def ArrayPtr_new_pos nc_def)
  have "(blocks ?h4)(?p := None) = (blocks h)(?p := None,
              ?q \<mapsto> take it (elements h v) @ x # drop it (elements h v) @
                replicate (nc - Suc (size_m v)) ?d)"
  proof (cases "capacity_m v = 0")
    case True
    then have z: "size_m v = 0" "it = 0" "nc = 1" using full it by (simp_all add: nc_def)
    have "?h4 = store (?q, 0) x ?h1" by (simp add: z std_move_nop)
    moreover have "blocks ?h1 ?q = Some [?d]" using h1 by (simp add: z)
    ultimately show ?thesis using pq h1
      by (simp add: blocks_store z elements_def fun_upd_twist)
  next
    case False
    then have cap: "0 < capacity_m v" by simp
    let ?xs = "block h ?p"
    let ?ys = "replicate nc ?d"
    from valid_buffer [OF v cap] have xs: "blocks h ?p = Some ?xs" "length ?xs = size_m v"
      using full by simp_all
    have el: "elements h v = ?xs" using xs by (simp add: elements_def)
    have ncv: "nc = size_m v * 2" using False full by (simp add: nc_def)
    have 1: "blocks ?h1 ?p = Some ?xs" using xs pq by (simp add: h1)
    have 2: "blocks ?h1 ?q = Some ?ys" by (simp add: h1)
    let ?xs1 = "take 0 ?xs @ map (moved_from T) (take (it - 0) (drop 0 ?xs)) @ drop it ?xs"
    let ?ys1 = "take 0 ?ys @ take (it - 0) (drop 0 ?xs) @ drop (0 + (it - 0)) ?ys"
    have h2: "blocks ?h2 = (blocks ?h1)(?q \<mapsto> ?ys1, ?p \<mapsto> ?xs1)"
      using it xs nc by (intro blocks_std_move_diff [OF 1 2 pq]) simp_all
    have h3: "blocks ?h3 = (blocks ?h1)(?q \<mapsto> ?ys1[it := x], ?p \<mapsto> ?xs1)"
      using pq by (simp add: blocks_store [of ?h2 ?q ?ys1] h2 fun_upd_twist)
    have 3: "blocks ?h3 ?p = Some ?xs1" by (simp add: h3)
    have 4: "blocks ?h3 ?q = Some (?ys1[it := x])" using pq by (simp add: h3)
    have h4: "blocks ?h4 = (blocks ?h3)
       (?q \<mapsto> take (Suc it) (?ys1[it := x]) @ take (size_m v - it) (drop it ?xs1) @
              drop (Suc it + (size_m v - it)) (?ys1[it := x]),
        ?p \<mapsto> take it ?xs1 @ map (moved_from T) (take (size_m v - it) (drop it ?xs1)) @
              drop (size_m v) ?xs1)"
      using it xs nc by (intro blocks_std_move_diff [OF 3 4 pq]) simp_all
    have new: "take (Suc it) (?ys1[it := x]) @ take (size_m v - it) (drop it ?xs1) @
              drop (Suc it + (size_m v - it)) (?ys1[it := x]) =
            take it ?xs @ x # drop it ?xs @ replicate (nc - Suc (size_m v)) ?d"
      using it xs nc
      by (intro nth_equalityI) (auto simp: nth_append nth_list_update min_def ncv)
    show ?thesis
      using pq by (simp only: h4 new el) (simp add: h3 h1 fun_upd_twist)
  qed
  with res nc(1) show ?thesis by (simp add: ArrayPtr_new_pos)
qed


lemma Insert_move_room:
  fixes T :: "'a element_type" and h :: "'a heap"
  assumes ok: "heap_ok h" and v: "valid h v" and room: "size_m v \<noteq> capacity_m v"
    and it: "it \<le> size_m v"
  shows "\<exists>h'. Insert_move T (data_m v, it) (Outside x) v h =
           Inr ((data_m v, it), v\<lparr>size_m := Suc (size_m v)\<rparr>, h') \<and>
           blocks h' = (blocks h)(data_m v \<mapsto>
              take it (block h (data_m v)) @ x #
              take (size_m v - it) (drop it (block h (data_m v))) @
              drop (Suc (size_m v)) (block h (data_m v))) \<and>
           fresh h' = fresh h"
proof -
  let ?p = "data_m v" and ?xs = "block h (data_m v)"
  have cap: "0 < capacity_m v" "size_m v < capacity_m v" using room valid_size [OF v] by simp_all
  from valid_buffer [OF v cap(1)] have xs: "blocks h ?p = Some ?xs" "length ?xs = capacity_m v"
    by simp_all
  let ?h1 = "std_move_backward T (?p, it) (?p, size_m v) (?p, Suc (size_m v)) h"
  have res: "Insert_move T (?p, it) (Outside x) v h =
      Inr ((?p, it), v\<lparr>size_m := Suc (size_m v)\<rparr>, store (?p, it) x ?h1)"
    using room it by (simp add: Insert_move_def Let_def)
  have h1: "blocks ?h1 = (blocks h)(?p \<mapsto> shift_right (moved_from T) (size_m v) (size_m v - it) ?xs)"
    using xs(1) by (rule blocks_std_move_backward_right)
  have "blocks (store (?p, it) x ?h1) =
      (blocks h)(?p \<mapsto> (shift_right (moved_from T) (size_m v) (size_m v - it) ?xs)[it := x])"
    by (simp add: blocks_store [of ?h1 ?p "shift_right (moved_from T) (size_m v) (size_m v - it) ?xs"] h1)
  also have "(shift_right (moved_from T) (size_m v) (size_m v - it) ?xs)[it := x] =
      take it ?xs @ x # take (size_m v - it) (drop it ?xs) @ drop (Suc (size_m v)) ?xs"
    using it cap(2) xs(2) by (intro shift_right_insert) simp_all
  finally have b: "blocks (store (?p, it) x ?h1) =
      (blocks h)(?p \<mapsto> take it ?xs @ x # take (size_m v - it) (drop it ?xs) @
         drop (Suc (size_m v)) ?xs)" .
  show ?thesis by (simp add: res b)
qed

lemma Erase_explicit:
  fixes T :: "'a element_type" and h :: "'a heap"
  assumes ok: "heap_ok h" and v: "valid h v" and it: "it < size_m v"
  shows "\<exists>h'. Erase T (data_m v, it) v h =
           Inr ((data_m v, it), v\<lparr>size_m := size_m v - 1\<rparr>, h') \<and>
           blocks h' = (blocks h)(data_m v \<mapsto>
              shift_left (moved_from T) it (size_m v - Suc it) (block h (data_m v))) \<and>
           fresh h' = fresh h"
proof -
  let ?p = "data_m v" and ?xs = "block h (data_m v)"
  have cap: "0 < capacity_m v" using it valid_size [OF v] by simp
  from valid_buffer [OF v cap] have xs: "blocks h ?p = Some ?xs" by simp
  show ?thesis
    using it by (simp add: Erase_def Let_def blocks_std_move_left [OF xs])
qed


section \<open>The constructors\<close>

lemma new_generate:
  fixes T :: "'a element_type" and h :: "'a heap"
  assumes "0 < n"
  shows "blocks (std_generate (fresh h, 0) (fresh h, n) g (snd (ArrayPtr_new T n h))) =
           (blocks h)(fresh h \<mapsto> map g [0..<n])"
proof -
  let ?h1 = "snd (ArrayPtr_new T n h)"
  have 1: "blocks ?h1 (fresh h) = Some (replicate n (Type_default T))"
    using assms by (simp add: ArrayPtr_new_pos)
  have "blocks (std_generate (fresh h, 0) (fresh h, n) g ?h1) =
      (blocks ?h1)(fresh h \<mapsto> take 0 (replicate n (Type_default T)) @ map g [0..<n - 0] @
         drop n (replicate n (Type_default T)))"
    by (intro blocks_std_generate [OF 1]) simp_all
  then show ?thesis using assms by (simp add: ArrayPtr_new_pos)
qed

lemma ArrayPtr_new_0 [simp]: "ArrayPtr_new T 0 h = (0, h)"
  by (simp add: ArrayPtr_new_def)

lemma SimpleVector_sized_explicit:
  "fst (SimpleVector_sized T n h) =
     \<lparr>size_m = n, capacity_m = n, data_m = (if n = 0 then 0 else fresh h)\<rparr>"
  "blocks (snd (SimpleVector_sized T n h)) =
     (if n = 0 then blocks h else (blocks h)(fresh h \<mapsto> replicate n (Type_default T)))"
  "fresh (snd (SimpleVector_sized T n h)) = (if n = 0 then fresh h else Suc (fresh h))"
  by (cases "n = 0";
      simp add: SimpleVector_sized_def split_beta new_generate map_replicate_const
        ArrayPtr_new_pos std_generate_nop)+

lemma SimpleVector_filled_explicit:
  "fst (SimpleVector_filled T n x h) =
     \<lparr>size_m = n, capacity_m = n, data_m = (if n = 0 then 0 else fresh h)\<rparr>"
  "blocks (snd (SimpleVector_filled T n x h)) =
     (if n = 0 then blocks h else (blocks h)(fresh h \<mapsto> replicate n x))"
  "fresh (snd (SimpleVector_filled T n x h)) = (if n = 0 then fresh h else Suc (fresh h))"
  by (cases "n = 0";
      simp add: SimpleVector_filled_def split_beta std_fill_std_generate new_generate
        map_replicate_const ArrayPtr_new_pos std_generate_nop)+

lemma SimpleVector_filled_move_explicit:
  "fst (SimpleVector_filled_move T n x h) =
     \<lparr>size_m = n, capacity_m = n, data_m = (if n = 0 then 0 else fresh h)\<rparr>"
  "blocks (snd (SimpleVector_filled_move T n x h)) =
     (if n = 0 then blocks h
      else (blocks h)(fresh h \<mapsto> map (\<lambda>i. (moved_from T ^^ i) x) [0..<n]))"
  "fresh (snd (SimpleVector_filled_move T n x h)) = (if n = 0 then fresh h else Suc (fresh h))"
  by (cases "n = 0";
      simp add: SimpleVector_filled_move_def split_beta new_generate
        ArrayPtr_new_pos std_generate_nop)+

lemma SimpleVector_init_explicit:
  "fst (SimpleVector_init T init h) =
     \<lparr>size_m = length init, capacity_m = length init,
      data_m = (if init = [] then 0 else fresh h)\<rparr>"
  "blocks (snd (SimpleVector_init T init h)) =
     (if init = [] then blocks h else (blocks h)(fresh h \<mapsto> init))"
  "fresh (snd (SimpleVector_init T init h)) = (if init = [] then fresh h else Suc (fresh h))"
  by (cases "init = []";
      simp add: SimpleVector_init_def split_beta std_copy_init_std_generate new_generate
        map_nth ArrayPtr_new_pos std_generate_nop)+

lemma SimpleVector_copy_explicit:
  fixes T :: "'a element_type" and h :: "'a heap"
  assumes ok: "heap_ok h" and v: "valid h v"
  shows "fst (SimpleVector_copy T v h) =
     \<lparr>size_m = size_m v, capacity_m = size_m v, data_m = (if size_m v = 0 then 0 else fresh h)\<rparr>"
    and "blocks (snd (SimpleVector_copy T v h)) =
     (if size_m v = 0 then blocks h else (blocks h)(fresh h \<mapsto> elements h v))"
    and "fresh (snd (SimpleVector_copy T v h)) = (if size_m v = 0 then fresh h else Suc (fresh h))"
proof -
  let ?n = "size_m v" and ?p = "data_m v" and ?q = "fresh h"
  let ?h1 = "snd (SimpleVector_sized T ?n h)"
  let ?T = "T\<lparr>moved_from := \<lambda>x. x\<rparr>"
  note sized = SimpleVector_sized_explicit [of T ?n h]
  have null: "(blocks h)(0 := None) = blocks h" using heap_ok_null [OF ok] by auto
  show "fst (SimpleVector_copy T v h) =
     \<lparr>size_m = ?n, capacity_m = ?n, data_m = (if ?n = 0 then 0 else ?q)\<rparr>"
    by (simp add: SimpleVector_copy_def split_beta swap_def ArrayPtr_swap_def sized
        SimpleVector_default_def GetSize_def)
  show "fresh (snd (SimpleVector_copy T v h)) = (if ?n = 0 then ?q else Suc ?q)"
    by (simp add: SimpleVector_copy_def split_beta swap_def ArrayPtr_swap_def sized
        SimpleVector_default_def GetSize_def destroy_def std_copy_std_move [where T = T])
  have *: "blocks (snd (SimpleVector_copy T v h)) =
      (blocks (std_move ?T (?p, 0) (?p, ?n) (if ?n = 0 then 0 else ?q, 0) ?h1))(0 := None)"
    by (simp add: SimpleVector_copy_def split_beta swap_def ArrayPtr_swap_def sized
        SimpleVector_default_def GetSize_def destroy_def std_copy_std_move [where T = T])
  show "blocks (snd (SimpleVector_copy T v h)) =
     (if ?n = 0 then blocks h else (blocks h)(?q \<mapsto> elements h v))"
  proof (cases "?n = 0")
    case True
    then show ?thesis by (simp add: * std_move_nop SimpleVector_sized_explicit null)
  next
    case False
    then have cap: "0 < capacity_m v" using valid_size [OF v] by simp
    let ?xs = "block h ?p" and ?ys = "replicate ?n (Type_default T)"
    from valid_buffer [OF v cap] have xs: "blocks h ?p = Some ?xs" "length ?xs = capacity_m v"
      by simp_all
    have pq: "?p \<noteq> ?q" using ok v by (rule valid_data_not_fresh)
    have q0: "?q \<noteq> 0" using heap_ok_fresh_pos [OF ok] by simp
    have 1: "blocks ?h1 ?p = Some ?xs" using xs pq False by (simp add: sized)
    have 2: "blocks ?h1 ?q = Some ?ys" using False by (simp add: sized)
    have "blocks (std_move ?T (?p, 0) (?p, ?n) (?q, 0) ?h1) =
       (blocks ?h1)
         (?q \<mapsto> take 0 ?ys @ take (?n - 0) (drop 0 ?xs) @ drop (0 + (?n - 0)) ?ys,
          ?p \<mapsto> take 0 ?xs @ map (moved_from ?T) (take (?n - 0) (drop 0 ?xs)) @ drop ?n ?xs)"
      using xs valid_size [OF v] by (intro blocks_std_move_diff [OF 1 2 pq]) simp_all
    also have "\<dots> = (blocks h)(?q \<mapsto> elements h v)"
      using False pq xs(1) by (simp add: sized elements_def fun_upd_twist map_upd_triv)
    finally have "blocks (std_move ?T (?p, 0) (?p, ?n) (?q, 0) ?h1) =
       (blocks h)(?q \<mapsto> elements h v)" .
    then show ?thesis using False q0 by (simp add: * null fun_upd_twist)
  qed
qed


lemma framed_refl: "heap_ok h \<Longrightarrow> valid h v \<Longrightarrow> framed h v h v"
  by (simp add: framed_def)

lemma framed_size:
  "heap_ok h \<Longrightarrow> valid h v \<Longrightarrow> n \<le> capacity_m v \<Longrightarrow> framed h v h (v\<lparr>size_m := n\<rparr>)"
  by (auto simp: framed_def valid_def split: option.splits if_splits)

lemma post_realloc:
  assumes ok: "heap_ok h" and v: "valid h v"
    and b: "blocks h' = (blocks h)(data_m v := None, fresh h \<mapsto> B)"
    and f: "fresh h' = Suc (fresh h)"
    and len: "length B = nc" "sz \<le> nc" "0 < nc"
  shows "framed h v h' \<lparr>size_m = sz, capacity_m = nc, data_m = fresh h\<rparr>"
    and "elements h' \<lparr>size_m = sz, capacity_m = nc, data_m = fresh h\<rparr> = take sz B"
proof -
  have "0 < a \<and> a < fresh h'" if "blocks h' a = Some ys" for a ys
    using that heap_ok_live [OF ok, of a ys] heap_ok_fresh_pos [OF ok]
    by (auto simp: b f split: if_splits)
  then have "heap_ok h'"
    using heap_ok_fresh_pos [OF ok] by (auto simp: heap_ok_def f)
  moreover have "valid h' \<lparr>size_m = sz, capacity_m = nc, data_m = fresh h\<rparr>"
    using len by (simp add: valid_def b)
  ultimately show "framed h v h' \<lparr>size_m = sz, capacity_m = nc, data_m = fresh h\<rparr>"
    by (simp add: framed_def b)
  show "elements h' \<lparr>size_m = sz, capacity_m = nc, data_m = fresh h\<rparr> = take sz B"
    by (simp add: elements_def block_def b)
qed

lemma post_inplace:
  assumes ok: "heap_ok h" and v: "valid h v" and cap: "0 < capacity_m v"
    and b: "blocks h' = (blocks h)(data_m v \<mapsto> B)"
    and f: "fresh h' = fresh h"
    and len: "length B = capacity_m v" "sz \<le> capacity_m v"
  shows "framed h v h' (v\<lparr>size_m := sz\<rparr>)"
    and "elements h' (v\<lparr>size_m := sz\<rparr>) = take sz B"
proof -
  from valid_buffer [OF v cap] have xs: "blocks h (data_m v) = Some (block h (data_m v))"
    by simp
  have "0 < a \<and> a < fresh h'" if "blocks h' a = Some ys" for a ys
    using that heap_ok_live [OF ok, of a ys] heap_ok_live [OF ok xs]
    by (auto simp: b f split: if_splits)
  then have "heap_ok h'"
    using heap_ok_fresh_pos [OF ok] by (auto simp: heap_ok_def f)
  moreover have "valid h' (v\<lparr>size_m := sz\<rparr>)"
    using len cap by (simp add: valid_def b)
  ultimately show "framed h v h' (v\<lparr>size_m := sz\<rparr>)"
    by (simp add: framed_def b)
  show "elements h' (v\<lparr>size_m := sz\<rparr>) = take sz B"
    by (simp add: elements_def block_def b)
qed

lemma framed_other:
  assumes ok: "heap_ok h" and v: "valid h v" and w: "valid h w" and sep: "separated v w"
    and fr: "framed h v h' v'"
  shows "valid h' w" and "separated v' w" and "elements h' w = elements h w"
    and "block h' (data_m w) = block h (data_m w)"
proof -
  have same: "blocks h' (data_m w) = blocks h (data_m w)" if "0 < capacity_m w"
  proof -
    from valid_buffer [OF w that] have live: "blocks h (data_m w) = Some (block h (data_m w))"
      by simp
    from heap_ok_live [OF ok live] have "data_m w \<noteq> fresh h" "data_m w \<noteq> 0" by simp_all
    moreover have "data_m w \<noteq> data_m v"
      using sep that \<open>data_m w \<noteq> 0\<close> valid_empty [OF v] by (auto simp: separated_def)
    ultimately show ?thesis using fr by (simp add: framed_def)
  qed
  have ok': "heap_ok h'" using fr by (simp add: framed_def)
  show "valid h' w"
    using w same by (cases "capacity_m w = 0") (simp_all add: valid_def)
  show b: "block h' (data_m w) = block h (data_m w)"
    using same valid_empty [OF w] heap_ok_null [OF ok] heap_ok_null [OF ok']
    by (cases "capacity_m w = 0") (simp_all add: block_def)
  show "elements h' w = elements h w"
    by (simp add: elements_def b)
  show "separated v' w"
  proof (cases "capacity_m w = 0")
    case True
    then show ?thesis by (simp add: separated_def)
  next
    case False
    then have cap: "0 < capacity_m w" by simp
    from valid_buffer [OF w cap] have live: "blocks h (data_m w) = Some (block h (data_m w))"
      by simp
    from heap_ok_live [OF ok live] have *: "data_m w \<noteq> fresh h" "data_m w \<noteq> 0" by simp_all
    have "data_m w \<noteq> data_m v"
      using sep cap * valid_empty [OF v] by (auto simp: separated_def)
    with * fr show ?thesis by (auto simp: separated_def framed_def)
  qed
qed

section \<open>The modifiers\<close>

lemma PushBack_move_eq: "PushBack_move T (Outside x) v h = PushBack T (Outside x) v h"
  by (simp add: PushBack_move_def PushBack_def)

lemma PushBack_size: "size_m (fst (PushBack T item v h)) = Suc (size_m v)"
  by (simp add: PushBack_def Let_def split_beta ArrayPtr_swap_def)

lemma PushBack_capacity:
  "capacity_m (fst (PushBack T item v h)) =
     (if size_m v = capacity_m v then (if capacity_m v = 0 then 1 else capacity_m v * 2)
      else capacity_m v)"
  by (simp add: PushBack_def Let_def split_beta ArrayPtr_swap_def)

lemma PushBack_data: "size_m v \<noteq> capacity_m v \<Longrightarrow> data_m (fst (PushBack T item v h)) = data_m v"
  by (simp add: PushBack_def)

lemma PushBack_move_size: "size_m (fst (PushBack_move T item v h)) = Suc (size_m v)"
  by (simp add: PushBack_move_def Let_def split_beta ArrayPtr_swap_def)

lemma PushBack_move_capacity:
  "capacity_m (fst (PushBack_move T item v h)) =
     (if size_m v = capacity_m v then (if capacity_m v = 0 then 1 else capacity_m v * 2)
      else capacity_m v)"
  by (simp add: PushBack_move_def Let_def split_beta ArrayPtr_swap_def)

lemma PushBack_post:
  fixes T :: "'a element_type" and h :: "'a heap"
  assumes ok: "heap_ok h" and v: "valid h v"
  shows "framed h v (snd (PushBack T (Outside x) v h)) (fst (PushBack T (Outside x) v h))"
    and "elements (snd (PushBack T (Outside x) v h)) (fst (PushBack T (Outside x) v h)) = elements h v @ [x]"
proof -
  have len: "length (elements h v) = size_m v" using ok v by (rule length_elements)
  have "framed h v (snd (PushBack T (Outside x) v h)) (fst (PushBack T (Outside x) v h)) \<and>
        elements (snd (PushBack T (Outside x) v h)) (fst (PushBack T (Outside x) v h)) = elements h v @ [x]"
  proof (cases "size_m v = capacity_m v")
    case True
    let ?nc = "if capacity_m v = 0 then 1 else capacity_m v * 2"
    let ?B = "elements h v @ x # replicate (?nc - Suc (size_m v)) (Type_default T)"
    note e = PushBack_full [OF ok v True, of T x]
    have "length ?B = ?nc" "Suc (size_m v) \<le> ?nc" "0 < ?nc" using True len by auto
    from post_realloc [OF ok v e(2) e(3) this] show ?thesis
      using len by (simp add: e(1))
  next
    case False
    let ?B = "(block h (data_m v))[size_m v := x]"
    note e = PushBack_room [OF ok v False, of T x]
    have cap: "0 < capacity_m v" "size_m v < capacity_m v" using False valid_size [OF v] by simp_all
    have l: "length (block h (data_m v)) = capacity_m v" using ok v by (rule valid_length_block)
    then have "length ?B = capacity_m v" "Suc (size_m v) \<le> capacity_m v" using cap by simp_all
    from post_inplace [OF ok v cap(1) e(2) e(3) this] show ?thesis
      using cap l by (simp add: e(1) elements_def take_Suc_conv_app_nth)
  qed
  then show "framed h v (snd (PushBack T (Outside x) v h)) (fst (PushBack T (Outside x) v h))"
    and "elements (snd (PushBack T (Outside x) v h)) (fst (PushBack T (Outside x) v h)) = elements h v @ [x]"
    by simp_all
qed

lemma Reserve_size: "size_m (fst (SimpleVector_Reserve T n v h)) = size_m v"
  by (simp add: SimpleVector_Reserve_def Let_def split_beta ArrayPtr_swap_def)

lemma Reserve_capacity:
  "capacity_m (fst (SimpleVector_Reserve T n v h)) = max n (capacity_m v)"
  by (simp add: SimpleVector_Reserve_def Let_def split_beta ArrayPtr_swap_def)

lemma SimpleVector_fields:
  "v\<lparr>data_m := d, capacity_m := c\<rparr> = \<lparr>size_m = size_m v, capacity_m = c, data_m = d\<rparr>"
  by (cases v) simp

lemma Reserve_post:
  fixes T :: "'a element_type" and h :: "'a heap"
  assumes ok: "heap_ok h" and v: "valid h v"
  shows "framed h v (snd (SimpleVector_Reserve T n v h)) (fst (SimpleVector_Reserve T n v h))"
    and "elements (snd (SimpleVector_Reserve T n v h)) (fst (SimpleVector_Reserve T n v h)) =
           elements h v"
proof -
  have len: "length (elements h v) = size_m v" using ok v by (rule length_elements)
  have "framed h v (snd (SimpleVector_Reserve T n v h)) (fst (SimpleVector_Reserve T n v h)) \<and>
    elements (snd (SimpleVector_Reserve T n v h)) (fst (SimpleVector_Reserve T n v h)) =
       elements h v"
  proof (cases "capacity_m v < n")
    case True
    let ?B = "elements h v @ replicate (n - size_m v) (Type_default T)"
    note e = Reserve_grow [OF ok v True, of T]
    have "length ?B = n" "size_m v \<le> n" "0 < n" using True len valid_size [OF v] by auto
    from post_realloc [OF ok v e(2) e(3) this] show ?thesis
      using len by (simp add: e(1) SimpleVector_fields)
  next
    case False
    then show ?thesis using ok v by (simp add: Reserve_keep framed_refl)
  qed
  then show "framed h v (snd (SimpleVector_Reserve T n v h)) (fst (SimpleVector_Reserve T n v h))"
    and "elements (snd (SimpleVector_Reserve T n v h)) (fst (SimpleVector_Reserve T n v h)) =
           elements h v"
    by simp_all
qed

lemma Resize_size: "size_m (fst (Resize T n v h)) = n"
  by (simp add: Resize_def Let_def split_beta ArrayPtr_swap_def)

lemma Resize_capacity:
  "capacity_m (fst (Resize T n v h)) =
     (if n \<le> capacity_m v \<or> n \<le> size_m v then capacity_m v else max n (capacity_m v * 2))"
  by (simp add: Resize_def Let_def split_beta ArrayPtr_swap_def)

lemma Resize_post:
  fixes T :: "'a element_type" and h :: "'a heap"
  assumes ok: "heap_ok h" and v: "valid h v"
  shows "framed h v (snd (Resize T n v h)) (fst (Resize T n v h))"
    and "elements (snd (Resize T n v h)) (fst (Resize T n v h)) =
           take n (elements h v) @ replicate (n - size_m v) (Type_default T)"
proof -
  have len: "length (elements h v) = size_m v" using ok v by (rule length_elements)
  have l: "length (block h (data_m v)) = capacity_m v" using ok v by (rule valid_length_block)
  have "framed h v (snd (Resize T n v h)) (fst (Resize T n v h)) \<and>
    elements (snd (Resize T n v h)) (fst (Resize T n v h)) =
           take n (elements h v) @ replicate (n - size_m v) (Type_default T)"
  proof -
    consider "n \<le> size_m v" | "size_m v < n" "n \<le> capacity_m v" | "capacity_m v < n"
      by linarith
    then show ?thesis
    proof cases
      case 1
      then show ?thesis
        using ok v valid_size [OF v]
        by (simp add: Resize_shrink framed_size elements_def min_def)
    next
      case 2
      let ?B = "take (size_m v) (block h (data_m v)) @
         replicate (n - size_m v) (Type_default T) @ drop n (block h (data_m v))"
      note e = Resize_room [OF ok v 2, of T]
      have "length ?B = capacity_m v" using 2 l by simp
      from post_inplace [OF ok v _ e(2) e(3) this 2(2)] 2 show ?thesis
        using l by (simp add: e(1) elements_def)
    next
      case 3
      let ?nc = "max n (capacity_m v * 2)"
      let ?B = "elements h v @ replicate (?nc - size_m v) (Type_default T)"
      note e = Resize_grow [OF ok v 3, of T]
      have sz: "size_m v < n" using 3 valid_size [OF v] by simp
      have "length ?B = ?nc" "n \<le> ?nc" "0 < ?nc" using 3 len valid_size [OF v] by auto
      from post_realloc [OF ok v e(2) e(3) this] show ?thesis
        using len sz by (simp add: e(1) min_def)
    qed
  qed
  then show "framed h v (snd (Resize T n v h)) (fst (Resize T n v h))"
    and "elements (snd (Resize T n v h)) (fst (Resize T n v h)) =
           take n (elements h v) @ replicate (n - size_m v) (Type_default T)"
    by simp_all
qed


lemma deref_elements: "i < size_m v \<Longrightarrow> deref h (data_m v, i) = elements h v ! i"
  by (simp add: deref_def elements_def)

lemma take_prefix: "length A = n \<Longrightarrow> take n (A @ R) = A"
  by simp

lemma take_inserted:
  assumes "it \<le> length E"
  shows "take (Suc (length E)) (take it E @ x # drop it E @ R) = take it E @ x # drop it E"
  using take_prefix [of "take it E @ x # drop it E" "Suc (length E)" R] assms by simp

lemma Insert_move_post:
  fixes T :: "'a element_type" and h :: "'a heap"
  assumes ok: "heap_ok h" and v: "valid h v" and it: "it \<le> size_m v"
  shows "\<exists>v' h'. Insert_move T (data_m v, it) (Outside x) v h = Inr ((data_m v', it), v', h') \<and>
           framed h v h' v' \<and>
           elements h' v' = take it (elements h v) @ x # drop it (elements h v) \<and>
           size_m v' = Suc (size_m v) \<and>
           capacity_m v' =
             (if size_m v = capacity_m v then (if capacity_m v = 0 then 1 else capacity_m v * 2)
              else capacity_m v) \<and>
           (size_m v \<noteq> capacity_m v \<longrightarrow> data_m v' = data_m v)"
proof (cases "size_m v = capacity_m v")
  case True
  let ?nc = "if capacity_m v = 0 then 1 else capacity_m v * 2"
  let ?B = "take it (elements h v) @ x # drop it (elements h v) @
              replicate (?nc - Suc (size_m v)) (Type_default T)"
  let ?v = "\<lparr>size_m = Suc (size_m v), capacity_m = ?nc, data_m = fresh h\<rparr>"
  have len: "length (elements h v) = size_m v" using ok v by (rule length_elements)
  from Insert_move_full [OF ok v True it, of T x] obtain h' where
    e: "Insert_move T (data_m v, it) (Outside x) v h = Inr ((fresh h, it), ?v, h')"
      "blocks h' = (blocks h)(data_m v := None, fresh h \<mapsto> ?B)"
      "fresh h' = Suc (fresh h)"
    by blast
  have "length ?B = ?nc" "Suc (size_m v) \<le> ?nc" "0 < ?nc" using True len it by auto
  note p = post_realloc [OF ok v e(2) e(3) this]
  have "elements h' ?v = take it (elements h v) @ x # drop it (elements h v)"
    using take_inserted [of it "elements h v" x] len it by (simp only: p(2))
  with p(1) e(1) True show ?thesis by auto
next
  case False
  let ?xs = "block h (data_m v)"
  let ?B = "take it ?xs @ x # take (size_m v - it) (drop it ?xs) @ drop (Suc (size_m v)) ?xs"
  let ?v = "v\<lparr>size_m := Suc (size_m v)\<rparr>"
  have cap: "0 < capacity_m v" "size_m v < capacity_m v" using False valid_size [OF v] by simp_all
  have l: "length ?xs = capacity_m v" using ok v by (rule valid_length_block)
  from Insert_move_room [OF ok v False it, of T x] obtain h' where
    e: "Insert_move T (data_m v, it) (Outside x) v h = Inr ((data_m v, it), ?v, h')"
      "blocks h' = (blocks h)(data_m v \<mapsto> ?B)"
      "fresh h' = fresh h"
    by blast
  have "length ?B = capacity_m v" "Suc (size_m v) \<le> capacity_m v" using cap l it by simp_all
  note p = post_inplace [OF ok v cap(1) e(2) e(3) this]
  have "length (take it ?xs @ x # take (size_m v - it) (drop it ?xs)) = Suc (size_m v)"
    using l it cap by auto
  from take_prefix [OF this, of "drop (Suc (size_m v)) ?xs"]
  have "take (Suc (size_m v)) ?B = take it (elements h v) @ x # drop it (elements h v)"
    using l it cap by (simp add: elements_def drop_take min_def)
  then have "elements h' ?v = take it (elements h v) @ x # drop it (elements h v)"
    by (simp only: p(2))
  with p(1) e(1) False show ?thesis by auto
qed

lemma Insert_post:
  fixes T :: "'a element_type" and h :: "'a heap"
  assumes ok: "heap_ok h" and v: "valid h v" and it: "it \<le> size_m v"
  shows "\<exists>v' h'. Insert T (data_m v, it) (Outside x) v h = Inr ((data_m v', it), v', h') \<and>
           framed h v h' v' \<and>
           elements h' v' = take it (elements h v) @ x # drop it (elements h v) \<and>
           size_m v' = Suc (size_m v) \<and>
           capacity_m v' =
             (if size_m v = capacity_m v then (if capacity_m v = 0 then 1 else capacity_m v * 2)
              else capacity_m v) \<and>
           (size_m v \<noteq> capacity_m v \<longrightarrow> data_m v' = data_m v)"
  unfolding Insert_Insert_move [of T] using ok v it by (rule Insert_move_post)

lemma Erase_post:
  fixes T :: "'a element_type" and h :: "'a heap"
  assumes ok: "heap_ok h" and v: "valid h v" and it: "it < size_m v"
  shows "\<exists>h'. Erase T (data_m v, it) v h = Inr ((data_m v, it), v\<lparr>size_m := size_m v - 1\<rparr>, h') \<and>
           framed h v h' (v\<lparr>size_m := size_m v - 1\<rparr>) \<and>
           elements h' (v\<lparr>size_m := size_m v - 1\<rparr>) =
             take it (elements h v) @ drop (Suc it) (elements h v) \<and>
           (Suc it < size_m v \<longrightarrow> deref h' (data_m v, it) = elements h v ! Suc it)"
proof -
  let ?xs = "block h (data_m v)"
  let ?n = "size_m v - Suc it"
  let ?B = "shift_left (moved_from T) it ?n ?xs"
  let ?v = "v\<lparr>size_m := size_m v - 1\<rparr>"
  have cap: "0 < capacity_m v" "size_m v \<le> capacity_m v" using it valid_size [OF v] by simp_all
  have l: "length ?xs = capacity_m v" using ok v by (rule valid_length_block)
  have n: "it + ?n < length ?xs" "it + ?n = size_m v - 1" using it cap l by simp_all
  note sl = shift_left_list [OF n(1), of "moved_from T"]
  from Erase_explicit [OF ok v it, of T] obtain h' where
    e: "Erase T (data_m v, it) v h = Inr ((data_m v, it), ?v, h')"
      "blocks h' = (blocks h)(data_m v \<mapsto> ?B)"
      "fresh h' = fresh h"
    by blast
  have "length ?B = capacity_m v" "size_m v - 1 \<le> capacity_m v" using sl(1) l cap by simp_all
  note p = post_inplace [OF ok v cap(1) e(2) e(3) this]
  have "take (size_m v - 1) ?B = take it (elements h v) @ drop (Suc it) (elements h v)"
    using sl(2) it cap l by (simp add: n(2) elements_def drop_take min_def)
  then have el: "elements h' ?v = take it (elements h v) @ drop (Suc it) (elements h v)"
    by (simp only: p(2))
  have "deref h' (data_m v, it) = elements h v ! Suc it" if "Suc it < size_m v"
  proof -
    have "?B ! it = ?xs ! Suc it"
      using shift_left_nth [OF n(1), of "moved_from T"] that by simp
    then show ?thesis using that by (simp add: deref_def block_def e(2) elements_def)
  qed
  with p(1) e(1) el show ?thesis by auto
qed

lemma store_post:
  fixes h :: "'a heap"
  assumes ok: "heap_ok h" and v: "valid h v" and i: "i < size_m v"
  shows "framed h v (store (data_m v, i) x h) v"
    and "elements (store (data_m v, i) x h) v = (elements h v)[i := x]"
proof -
  let ?xs = "block h (data_m v)"
  have cap: "0 < capacity_m v" "size_m v \<le> capacity_m v" using i valid_size [OF v] by simp_all
  from valid_buffer [OF v cap(1)] have xs: "blocks h (data_m v) = Some ?xs" "length ?xs = capacity_m v"
    by simp_all
  have b: "blocks (store (data_m v, i) x h) = (blocks h)(data_m v \<mapsto> ?xs[i := x])"
    using xs(1) by (rule blocks_store)
  have "length (?xs[i := x]) = capacity_m v" using xs by simp
  note p = post_inplace [OF ok v cap(1) b _ this cap(2)]
  from p(1) show "framed h v (store (data_m v, i) x h) v" by simp
  from p(2) show "elements (store (data_m v, i) x h) v = (elements h v)[i := x]"
    by (simp add: elements_def take_update_swap)
qed


section \<open>Calls and the vectors they do not touch\<close>

text \<open>A copying call only reads its argument: it does what it does for an object outside
  the arrays that has the value read.\<close>

lemma copy_assign_value: "copy_assign dst item h = copy_assign dst (Outside (value_of h item)) h"
  by (cases item) (simp_all add: copy_elem_def)

lemma PushBack_reads: "\<exists>x. PushBack T item v h = PushBack T (Outside x) v h"
proof (cases "size_m v = capacity_m v")
  case True
  let ?nc = "if capacity_m v = 0 then 1 else capacity_m v * 2"
  let ?h2 = "std_move T (Get (data_m v)) (ptr_add (Get (data_m v)) (size_m v))
               (Get (fst (ArrayPtr_new T ?nc h))) (snd (ArrayPtr_new T ?nc h))"
  have "PushBack T item v h = PushBack T (Outside (value_of ?h2 item)) v h"
    using True by (simp add: PushBack_def Let_def split_beta copy_assign_value [of _ item])
  then show ?thesis by blast
next
  case False
  have "PushBack T item v h = PushBack T (Outside (value_of h item)) v h"
    using False by (simp add: PushBack_def copy_assign_value [of _ item])
  then show ?thesis by blast
qed

lemma Insert_reads: "\<exists>x. Insert T pos item v h = Insert T pos (Outside x) v h"
proof (cases "size_m v = capacity_m v")
  case True
  let ?it = "ptr_diff pos (Get (data_m v))"
  let ?nc = "if capacity_m v = 0 then 1 else capacity_m v * 2"
  let ?h2 = "std_copy (Get (data_m v)) (ptr_add (Get (data_m v)) ?it)
               (Get (fst (ArrayPtr_new T ?nc h))) (snd (ArrayPtr_new T ?nc h))"
  have "Insert T pos item v h = Insert T pos (Outside (value_of ?h2 item)) v h"
    using True by (simp add: Insert_def Let_def split_beta copy_assign_value [of _ item])
  then show ?thesis by blast
next
  case False
  let ?it = "ptr_diff pos (Get (data_m v))"
  let ?h1 = "std_copy_backward (ptr_add (Get (data_m v)) ?it)
               (ptr_add (Get (data_m v)) (size_m v))
               (ptr_add (ptr_add (Get (data_m v)) (size_m v)) 1) h"
  have "Insert T pos item v h = Insert T pos (Outside (value_of ?h1 item)) v h"
    using False by (simp add: Insert_def Let_def split_beta copy_assign_value [of _ item])
  then show ?thesis by blast
qed

lemma Insert_move_Inr:
  "Insert_move T pos item v h = Inr z \<Longrightarrow> pos = (data_m v, snd pos) \<and> snd pos \<le> size_m v"
  by (cases pos) (simp add: Insert_move_def split: if_splits)

lemma Erase_Inr:
  "Erase T pos v h = Inr z \<Longrightarrow> pos = (data_m v, snd pos) \<and> snd pos < size_m v"
  by (cases pos) (simp add: Erase_def split: if_splits)

lemma apply_call_framed:
  fixes T :: "'a element_type" and h :: "'a heap"
  assumes ok: "heap_ok h" and v: "valid h v" and c: "apply_call T c (v, h) = Inr (v', h')"
  shows "framed h v h' v'"
proof (cases c)
  case (Call_PushBack item)
  from PushBack_reads [of T item v h] obtain x where
    "PushBack T item v h = PushBack T (Outside x) v h" ..
  with Call_PushBack c PushBack_post(1) [OF ok v, of T x] show ?thesis by auto
next
  case (Call_PushBack_move x)
  with c PushBack_post(1) [OF ok v, of T x] show ?thesis by (auto simp: PushBack_move_eq)
next
  case (Call_Insert pos item)
  from Insert_reads [of T pos item v h] obtain x where
    x: "Insert T pos item v h = Insert T pos (Outside x) v h" ..
  from Call_Insert c obtain r where r: "Insert T pos (Outside x) v h = Inr (r, v', h')"
    by (auto simp: x split: sum.splits)
  then have "pos = (data_m v, snd pos)" "snd pos \<le> size_m v"
    using Insert_move_Inr [of "T\<lparr>moved_from := \<lambda>x. x\<rparr>" pos "Outside x" v h]
    by (simp_all add: Insert_Insert_move [of T])
  with Insert_post [OF ok v this(2), of T x] r show ?thesis by auto
next
  case (Call_Insert_move pos x)
  with c obtain r where r: "Insert_move T pos (Outside x) v h = Inr (r, v', h')"
    by (auto split: sum.splits)
  then have "pos = (data_m v, snd pos)" "snd pos \<le> size_m v"
    using Insert_move_Inr [of T pos "Outside x" v h] by simp_all
  with Insert_move_post [OF ok v this(2), of T x] r show ?thesis by auto
next
  case (Call_Erase pos)
  with c obtain r where r: "Erase T pos v h = Inr (r, v', h')"
    by (auto split: sum.splits)
  then have "pos = (data_m v, snd pos)" "snd pos < size_m v"
    using Erase_Inr [of T pos v h] by simp_all
  with Erase_post [OF ok v this(2), of T] r show ?thesis by auto
next
  case Call_PopBack
  with c have "v' = v\<lparr>size_m := size_m v - 1\<rparr>" "h' = h"
    by (auto simp: PopBack_def split: if_splits)
  then show ?thesis using framed_size [OF ok v, of "size_m v - 1"] valid_size [OF v] by simp
next
  case Call_Clear
  with c have "v' = v\<lparr>size_m := 0\<rparr>" "h' = h" by (auto simp: Clear_def)
  then show ?thesis using framed_size [OF ok v, of 0] by simp
next
  case (Call_Resize n)
  with c Resize_post(1) [OF ok v, of T n] show ?thesis by auto
next
  case (Call_Reserve n)
  with c Reserve_post(1) [OF ok v, of T n] show ?thesis by auto
next
  case (Call_Index_assign i x)
  with c have "i < size_m v" "v' = v" "h' = store (data_m v, i) x h"
    by (auto simp: Index_def split: if_splits)
  then show ?thesis using store_post(1) [OF ok v, of i x] by simp
next
  case (Call_At_assign i x)
  with c have "i < size_m v" "v' = v" "h' = store (data_m v, i) x h"
    by (auto simp: At_def split: if_splits)
  then show ?thesis using store_post(1) [OF ok v, of i x] by simp
qed

lemma apply_calls_isolated:
  fixes T :: "'a element_type" and h :: "'a heap"
  assumes "heap_ok h" "valid h v" "valid h w" "separated v w"
    and "apply_calls T cs (v, h) = Inr (v', h')"
  shows "heap_ok h' \<and> valid h' v' \<and> valid h' w \<and> separated v' w \<and>
         elements h' w = elements h w"
  using assms
proof (induction cs arbitrary: v h)
  case Nil
  then show ?case by simp
next
  case (Cons c cs)
  from Cons.prems(5) obtain v1 h1 where
    c: "apply_call T c (v, h) = Inr (v1, h1)" and cs: "apply_calls T cs (v1, h1) = Inr (v', h')"
    by (auto split: sum.splits)
  from apply_call_framed [OF Cons.prems(1,2) c] have fr: "framed h v h1 v1" .
  note o = framed_other [OF Cons.prems(1,2,3,4) fr]
  have "heap_ok h1" "valid h1 v1" using fr by (simp_all add: framed_def)
  from Cons.IH [OF this o(1) o(2) cs] o(3) show ?case by simp
qed

section \<open>Copies\<close>

lemma SimpleVector_copy_post:
  fixes T :: "'a element_type" and h :: "'a heap"
  assumes ok: "heap_ok h" and v: "valid h v"
  shows "heap_ok (snd (SimpleVector_copy T v h))"
    and "valid (snd (SimpleVector_copy T v h)) (fst (SimpleVector_copy T v h))"
    and "valid (snd (SimpleVector_copy T v h)) v"
    and "separated (fst (SimpleVector_copy T v h)) v"
    and "elements (snd (SimpleVector_copy T v h)) (fst (SimpleVector_copy T v h)) = elements h v"
    and "elements (snd (SimpleVector_copy T v h)) v = elements h v"
    and "a \<noteq> fresh h \<Longrightarrow> blocks (snd (SimpleVector_copy T v h)) a = blocks h a"
proof -
  let ?c = "fst (SimpleVector_copy T v h)" and ?h = "snd (SimpleVector_copy T v h)"
  note e = SimpleVector_copy_explicit [OF ok v, of T]
  have len: "length (elements h v) = size_m v" using ok v by (rule length_elements)
  have pq: "data_m v \<noteq> fresh h" using ok v by (rule valid_data_not_fresh)
  show frame: "blocks ?h a = blocks h a" if "a \<noteq> fresh h" for a
    using that by (simp add: e(2))
  have live: "0 < a \<and> a < fresh ?h" if "blocks ?h a = Some ys" for a ys
    using that heap_ok_live [OF ok, of a ys] heap_ok_fresh_pos [OF ok]
    by (auto simp: e(2,3) split: if_splits)
  then show "heap_ok ?h"
    using heap_ok_fresh_pos [OF ok] by (auto simp: heap_ok_def e(3))
  show "valid ?h ?c" using len by (simp add: valid_def e(1,2))
  have b: "block ?h (data_m v) = block h (data_m v)"
    using frame [OF pq] by (simp add: block_def)
  show "valid ?h v" using v frame [OF pq] by (simp add: valid_def)
  show "elements ?h v = elements h v" by (simp add: elements_def b)
  show "elements ?h ?c = elements h v"
    using len by (auto simp: elements_def block_def e(1,2))
  show "separated ?c v" using pq by (auto simp: separated_def e(1))
qed

lemma equal_op_elements:
  "equal_op h v w \<longleftrightarrow>
     size_m v = size_m w \<and>
     (\<forall>i < size_m v. block h (data_m v) ! i = block h (data_m w) ! i)"
  by (auto simp: equal_op_def std_equal_def GetSize_def deref_def list_all_iff)

lemma equal_op_iff:
  assumes "heap_ok h" "valid h v" "valid h w"
  shows "equal_op h v w \<longleftrightarrow> elements h v = elements h w"
proof -
  have "length (elements h v) = size_m v" "length (elements h w) = size_m w"
    using assms by (simp_all add: length_elements)
  then show ?thesis
    by (auto simp: equal_op_elements list_eq_iff_nth_eq) (auto simp: elements_def)
qed

section \<open>PushBack\<close>

lemma valid_default: "valid h SimpleVector_default"
  by (simp add: valid_def SimpleVector_default_def)

lemma push_all:
  fixes T :: "'a element_type" and h :: "'a heap"
  assumes "heap_ok h" "valid h v"
  shows "heap_ok (snd (fold (\<lambda>x (v, h). PushBack T (Outside x) v h) xs (v, h))) \<and>
         valid (snd (fold (\<lambda>x (v, h). PushBack T (Outside x) v h) xs (v, h)))
           (fst (fold (\<lambda>x (v, h). PushBack T (Outside x) v h) xs (v, h))) \<and>
         elements (snd (fold (\<lambda>x (v, h). PushBack T (Outside x) v h) xs (v, h)))
           (fst (fold (\<lambda>x (v, h). PushBack T (Outside x) v h) xs (v, h))) = elements h v @ xs \<and>
         size_m (fst (fold (\<lambda>x (v, h). PushBack T (Outside x) v h) xs (v, h))) = size_m v + length xs"
  using assms
proof (induction xs arbitrary: v h)
  case Nil
  then show ?case by simp
next
  case (Cons x xs)
  let ?v = "fst (PushBack T (Outside x) v h)" and ?h = "snd (PushBack T (Outside x) v h)"
  note p = PushBack_post [OF Cons.prems, of T x]
  have "heap_ok ?h" "valid ?h ?v" using p(1) by (simp_all add: framed_def)
  from Cons.IH [OF this] show ?case
    by (simp add: split_beta p(2) PushBack_size)
qed

text \<open>The capacities that doubling from nothing reaches: a power of two that is at least the
  size and less than twice the size.\<close>

lemma doubling_step:
  assumes "(size_m v = 0 \<and> capacity_m v = 0) \<or>
           (\<exists>k. capacity_m v = 2 ^ k \<and> size_m v \<le> 2 ^ k \<and> 2 ^ k < 2 * size_m v)"
  shows "\<exists>k. capacity_m (fst (PushBack T (Outside x) v h)) = 2 ^ k \<and>
             size_m (fst (PushBack T (Outside x) v h)) \<le> 2 ^ k \<and>
             2 ^ k < 2 * size_m (fst (PushBack T (Outside x) v h))"
  using assms
proof
  assume "size_m v = 0 \<and> capacity_m v = 0"
  then have "capacity_m (fst (PushBack T (Outside x) v h)) = 2 ^ 0 \<and> size_m (fst (PushBack T (Outside x) v h)) = 1"
    by (simp add: PushBack_size PushBack_capacity)
  then show ?thesis by (intro exI [of _ 0]) simp
next
  assume "\<exists>k. capacity_m v = 2 ^ k \<and> size_m v \<le> 2 ^ k \<and> 2 ^ k < 2 * size_m v"
  then obtain k where k: "capacity_m v = 2 ^ k" "size_m v \<le> 2 ^ k" "2 ^ k < 2 * size_m v"
    by blast
  show ?thesis
  proof (cases "size_m v = capacity_m v")
    case True
    with k show ?thesis
      by (intro exI [of _ "Suc k"]) (simp add: PushBack_size PushBack_capacity)
  next
    case False
    with k show ?thesis
      by (intro exI [of _ k]) (simp add: PushBack_size PushBack_capacity)
  qed
qed

lemma doubling_all:
  assumes "(size_m v = 0 \<and> capacity_m v = 0) \<or>
           (\<exists>k. capacity_m v = 2 ^ k \<and> size_m v \<le> 2 ^ k \<and> 2 ^ k < 2 * size_m v)"
    and "xs \<noteq> []"
  shows "\<exists>k. capacity_m (fst (fold (\<lambda>x (v, h). PushBack T (Outside x) v h) xs (v, h))) = 2 ^ k \<and>
             size_m (fst (fold (\<lambda>x (v, h). PushBack T (Outside x) v h) xs (v, h))) \<le> 2 ^ k \<and>
             2 ^ k < 2 * size_m (fst (fold (\<lambda>x (v, h). PushBack T (Outside x) v h) xs (v, h)))"
  using assms
proof (induction xs arbitrary: v h)
  case Nil
  then show ?case by simp
next
  case (Cons x xs)
  from doubling_step [OF Cons.prems(1), of T x h]
  have step: "\<exists>k. capacity_m (fst (PushBack T (Outside x) v h)) = 2 ^ k \<and>
             size_m (fst (PushBack T (Outside x) v h)) \<le> 2 ^ k \<and>
             2 ^ k < 2 * size_m (fst (PushBack T (Outside x) v h))" .
  show ?case
  proof (cases "xs = []")
    case True
    with step show ?thesis by (simp add: split_beta)
  next
    case False
    from Cons.IH [of "fst (PushBack T (Outside x) v h)" "snd (PushBack T (Outside x) v h)", OF disjI2 False] step
    show ?thesis by (simp add: split_beta)
  qed
qed

text \<open>For an argument outside the arrays, \<open>PushBack\<close> puts the value behind the
  elements, which keep their order, and the size grows by one; a full vector gets twice its
  capacity, or capacity 1 when it had none. Values pushed one after the other into a
  default-constructed vector are its elements, in that order, and its capacity is the power of
  two that is at least their number and less than twice their number: 1, 2, 4, 8, ...\<close>

lemma PushBack_outside_appends_and_doubles:
  fixes T :: "'a element_type" and h :: "'a heap"
  assumes "heap_ok h" and "valid h v"
  shows "(case PushBack T (Outside x) v h of
            (v', h') \<Rightarrow>
              elements h' v' = elements h v @ [x] \<and>
              GetSize v' = GetSize v + 1 \<and>
              GetCapacity v' =
                (if GetSize v = GetCapacity v
                 then (if GetCapacity v = 0 then 1 else GetCapacity v * 2)
                 else GetCapacity v) \<and>
              heap_ok h' \<and> valid h' v') \<and>
         PushBack_move T (Outside x) v h = PushBack T (Outside x) v h \<and>
         (case fold (\<lambda>x (v, h). PushBack T (Outside x) v h) xs (SimpleVector_default, h) of
            (v', h') \<Rightarrow>
              elements h' v' = xs \<and>
              GetSize v' = length xs \<and>
              (if xs = [] then GetCapacity v' = 0
               else \<exists>k. GetCapacity v' = 2 ^ k \<and> length xs \<le> 2 ^ k \<and> 2 ^ k < 2 * length xs) \<and>
              heap_ok h' \<and> valid h' v')"
proof -
  note p = PushBack_post [OF assms, of T x]
  have one: "case PushBack T (Outside x) v h of
            (v', h') \<Rightarrow>
              elements h' v' = elements h v @ [x] \<and>
              GetSize v' = GetSize v + 1 \<and>
              GetCapacity v' =
                (if GetSize v = GetCapacity v
                 then (if GetCapacity v = 0 then 1 else GetCapacity v * 2)
                 else GetCapacity v) \<and>
              heap_ok h' \<and> valid h' v'"
    using p(1)
    by (simp add: split_beta p(2) GetSize_def GetCapacity_def PushBack_size PushBack_capacity
        framed_def)
  let ?r = "fold (\<lambda>x (v, h). PushBack T (Outside x) v h) xs (SimpleVector_default, h)"
  note a = push_all [OF assms(1) valid_default, of T xs]
  have d: "size_m SimpleVector_default = 0" "capacity_m SimpleVector_default = 0"
    "elements h SimpleVector_default = []"
    by (simp_all add: SimpleVector_default_def elements_def)
  have cap: "if xs = [] then capacity_m (fst ?r) = 0
     else \<exists>k. capacity_m (fst ?r) = 2 ^ k \<and> length xs \<le> 2 ^ k \<and> 2 ^ k < 2 * length xs"
  proof (cases "xs = []")
    case True
    then show ?thesis by (simp add: d)
  next
    case False
    from doubling_all [of SimpleVector_default xs T h] False a
    show ?thesis by (simp add: d)
  qed
  have many: "case ?r of
            (v', h') \<Rightarrow>
              elements h' v' = xs \<and>
              GetSize v' = length xs \<and>
              (if xs = [] then GetCapacity v' = 0
               else \<exists>k. GetCapacity v' = 2 ^ k \<and> length xs \<le> 2 ^ k \<and> 2 ^ k < 2 * length xs) \<and>
              heap_ok h' \<and> valid h' v'"
    using a cap by (simp add: split_beta GetSize_def GetCapacity_def d)
  from one many show ?thesis by (simp add: PushBack_move_eq)
qed

lemma heap_ok_empty_heap: "heap_ok empty_heap"
  by (simp add: heap_ok_def empty_heap_def)

lemma PushBack_one_to_five:
  "heap_ok empty_heap \<and> valid empty_heap SimpleVector_default \<and>
   (case fold (\<lambda>x (v, h). PushBack int_type (Outside x) v h) [1, 2, 3, 4, 5]
           (SimpleVector_default, empty_heap) of
      (v', h') \<Rightarrow> elements h' v' = [1, 2, 3, 4, 5] \<and> GetSize v' = 5 \<and> GetCapacity v' = 8)"
proof -
  have 1: "heap_ok empty_heap" by (rule heap_ok_empty_heap)
  have 2: "valid empty_heap SimpleVector_default" by (rule valid_default)
  have 3: "GetCapacity (fst (fold (\<lambda>x (v, h). PushBack int_type (Outside x) v h) [1, 2, 3, 4, 5]
           (SimpleVector_default, empty_heap))) = 8"
    by (simp add: GetCapacity_def PushBack_capacity PushBack_size split_beta
        SimpleVector_default_def)
  from PushBack_outside_appends_and_doubles [OF 1 2, where T = int_type and x = 0 and xs = "[1, 2, 3, 4, 5]"] 1 2 3
  show ?thesis by (simp add: split_beta)
qed

text \<open>What \<open>PushBack\<close> reads from a slot of an array: the value of the slot, unless the
  slot is an element of the vector itself and the vector is full. Then \<open>std::move\<close> has
  taken the elements to the new array before the reference is read, and the slot holds the
  moved-from value.\<close>

lemma relocate_source:
  fixes T :: "'a element_type" and h :: "'a heap" and v nc
  assumes ok: "heap_ok h" and v: "valid h v" and nc: "size_m v \<le> nc" "0 < nc"
    and cap: "0 < capacity_m v"
  defines "h2 \<equiv> std_move T (data_m v, 0) (data_m v, size_m v) (fresh h, 0)
                   (snd (ArrayPtr_new T nc h))"
  shows "blocks h2 (data_m v) =
           Some (map (moved_from T) (elements h v) @ drop (size_m v) (block h (data_m v)))"
proof -
  let ?h1 = "snd (ArrayPtr_new T nc h)"
  let ?q = "fresh h" and ?p = "data_m v"
  let ?xs = "block h ?p" and ?ys = "replicate nc (Type_default T)"
  have pq: "?p \<noteq> ?q" using ok v by (rule valid_data_not_fresh)
  have h1: "blocks ?h1 = (blocks h)(?q \<mapsto> ?ys)" using nc by (simp add: ArrayPtr_new_pos)
  from valid_buffer [OF v cap] have xs: "blocks h ?p = Some ?xs" "length ?xs = capacity_m v"
    by simp_all
  have 1: "blocks ?h1 ?p = Some ?xs" using xs pq by (simp add: h1)
  have 2: "blocks ?h1 ?q = Some ?ys" by (simp add: h1)
  have "blocks h2 =
       (blocks ?h1)
         (?q \<mapsto> take 0 ?ys @ take (size_m v - 0) (drop 0 ?xs) @ drop (0 + (size_m v - 0)) ?ys,
          ?p \<mapsto> take 0 ?xs @ map (moved_from T) (take (size_m v - 0) (drop 0 ?xs)) @
                 drop (size_m v) ?xs)"
    unfolding h2_def using xs valid_size [OF v] nc
    by (intro blocks_std_move_diff [OF 1 2 pq]) simp_all
  then show ?thesis by (simp add: elements_def)
qed

lemma relocate_others:
  fixes T :: "'a element_type" and h :: "'a heap" and v nc
  assumes ok: "heap_ok h" and v: "valid h v" and nc: "size_m v \<le> nc" "0 < nc"
    and a: "a \<noteq> data_m v" "a \<noteq> fresh h"
  shows "blocks (std_move T (data_m v, 0) (data_m v, size_m v) (fresh h, 0)
                   (snd (ArrayPtr_new T nc h))) a = blocks h a"
proof -
  let ?h2 = "std_move T (data_m v, 0) (data_m v, size_m v) (fresh h, 0)
                   (snd (ArrayPtr_new T nc h))"
  note r = relocate_all(2) [OF ok v nc, of T]
  have "blocks ?h2 a = ((blocks ?h2)(data_m v := None)) a" using a by simp
  also have "\<dots> = blocks h a" unfolding r using a by simp
  finally show ?thesis .
qed

lemma PushBack_of_slot:
  fixes T :: "'a element_type" and h :: "'a heap"
  assumes ok: "heap_ok h" and v: "valid h v"
    and live: "blocks h (fst p) = Some ys" "snd p < length ys"
  shows "PushBack T (Slot p) v h =
           PushBack T (Outside (if size_m v = capacity_m v \<and> fst p = data_m v
                                then moved_from T (deref h p) else deref h p)) v h"
proof (cases "size_m v = capacity_m v")
  case True
  define nc where "nc = (if capacity_m v = 0 then 1 else capacity_m v * 2)"
  let ?h2 = "std_move T (data_m v, 0) (data_m v, size_m v) (fresh h, 0)
                   (snd (ArrayPtr_new T nc h))"
  have nc: "size_m v \<le> nc" "0 < nc" using True by (auto simp: nc_def)
  have e: "PushBack T (Slot p) v h = PushBack T (Outside (deref ?h2 p)) v h"
    using True nc(2)
    by (simp add: PushBack_def Let_def split_beta copy_elem_def ArrayPtr_new_pos nc_def)
  have ne: "fst p \<noteq> fresh h" using heap_ok_live [OF ok live(1)] by simp
  have "deref ?h2 p = (if fst p = data_m v then moved_from T (deref h p) else deref h p)"
  proof (cases "fst p = data_m v")
    case same: True
    have cap: "0 < capacity_m v"
      using live(1) same valid_empty [OF v] heap_ok_null [OF ok] by (cases "capacity_m v") auto
    from valid_buffer [OF v cap] live same have ys: "ys = block h (data_m v)"
      "length ys = size_m v" using True by simp_all
    note s = relocate_source [OF ok v nc cap, of T]
    have "deref ?h2 p = (map (moved_from T) (elements h v) @ drop (size_m v) ys) ! snd p"
      using s same by (simp add: deref_def block_def ys(1))
    also have "\<dots> = moved_from T (ys ! snd p)"
      using live(2) ys by (simp add: elements_def nth_append)
    also have "ys ! snd p = deref h p" using live(1) by (simp add: deref_def block_def)
    finally show ?thesis using same by simp
  next
    case False
    from relocate_others [OF ok v nc False ne, of T]
    show ?thesis using False by (simp add: deref_def block_def)
  qed
  with e True show ?thesis by simp
next
  case False
  then show ?thesis by (simp add: PushBack_def copy_elem_def)
qed

text \<open>So \<open>PushBack\<close> appends the value of every argument that is not in the buffer of the
  vector.\<close>

lemma PushBack_of_other_object:
  fixes T :: "'a element_type" and h :: "'a heap"
  assumes "heap_ok h" and "valid h v" and "refers_outside h v item"
  shows "case PushBack T item v h of
           (v', h') \<Rightarrow>
             elements h' v' = elements h v @ [value_of h item] \<and>
             GetSize v' = GetSize v + 1 \<and>
             GetCapacity v' =
               (if GetSize v = GetCapacity v
                then (if GetCapacity v = 0 then 1 else GetCapacity v * 2)
                else GetCapacity v) \<and>
             heap_ok h' \<and> valid h' v'"
proof -
  have "PushBack T item v h = PushBack T (Outside (value_of h item)) v h"
  proof (cases item)
    case (Slot p)
    with assms(3) obtain ys where "fst p \<noteq> data_m v" "blocks h (fst p) = Some ys"
      "snd p < length ys"
      by (auto simp: refers_outside_def split: option.splits)
    with PushBack_of_slot [OF assms(1,2) this(2,3), of T] Slot show ?thesis by simp
  next
    case (Outside x)
    then show ?thesis by simp
  qed
  with PushBack_outside_appends_and_doubles [OF assms(1,2),
      where T = T and x = "value_of h item" and xs = "[]"]
  show ?thesis by simp
qed

lemma heap_ok_init:
  "heap_ok h \<Longrightarrow> heap_ok (snd (SimpleVector_init T init h))"
  by (auto simp: heap_ok_def SimpleVector_init_explicit less_SucI split: if_splits)

lemma valid_init:
  "heap_ok h \<Longrightarrow> valid (snd (SimpleVector_init T init h)) (fst (SimpleVector_init T init h))"
  by (simp add: valid_def SimpleVector_init_explicit)

lemma elements_init:
  "elements (snd (SimpleVector_init T init h)) (fst (SimpleVector_init T init h)) = init"
  by (simp add: elements_def block_def SimpleVector_init_explicit heap_ok_def)

text \<open>C2: \<open>PushBack\<close> is to put the value of its argument behind the elements, and its
  comment says that it adds the element to the end of the vector. For an argument that is an
  element of a full vector it does not: the vector of the strings \<open>a\<close> and \<open>b\<close> is full,
  and \<open>PushBack(v[0])\<close> appends the empty string that \<open>std::move\<close> has left in the slot,
  where the claim has \<open>a\<close>, \<open>b\<close>, \<open>a\<close>.\<close>

theorem PushBack_own_element:
  "(case SimpleVector_init string_type [''a'', ''b''] empty_heap of
      (v, h) \<Rightarrow>
        (case Index 0 v of
           Inl e \<Rightarrow> False
         | Inr item \<Rightarrow>
             elements h v = [''a'', ''b''] \<and> deref h item = ''a'' \<and>
             GetSize v = 2 \<and> GetCapacity v = 2 \<and>
             (case PushBack string_type (Slot item) v h of
                (v', h') \<Rightarrow>
                  elements h' v' = [''a'', ''b'', []] \<and>
                  elements h' v' \<noteq> elements h v @ [deref h item])))"
proof -
  let ?v = "fst (SimpleVector_init string_type [''a'', ''b''] empty_heap)"
  let ?h = "snd (SimpleVector_init string_type [''a'', ''b''] empty_heap)"
  have 1: "heap_ok ?h" by (intro heap_ok_init heap_ok_empty_heap)
  have 2: "valid ?h ?v" by (intro valid_init heap_ok_empty_heap)
  have 3: "elements ?h ?v = [''a'', ''b'']" by (rule elements_init)
  have 4: "size_m ?v = 2" "capacity_m ?v = 2" "data_m ?v = 1"
    by (simp_all add: SimpleVector_init_explicit empty_heap_def)
  have 5: "Index 0 ?v = Inr (1, 0)" by (simp add: Index_def 4)
  have 6: "blocks ?h (fst (1 :: nat, 0 :: nat)) = Some [''a'', ''b'']"
    "snd (1 :: nat, 0 :: nat) < length [''a'', ''b'']"
    by (simp_all add: SimpleVector_init_explicit empty_heap_def)
  have 7: "deref ?h (1, 0) = ''a''" using 6(1) by (simp add: deref_def block_def)
  have m: "moved_from string_type x = []" for x by (simp add: string_type_def)
  from PushBack_of_slot [OF 1 2 6, of string_type]
  have "PushBack string_type (Slot (1, 0)) ?v ?h =
      PushBack string_type (Outside (moved_from string_type (deref ?h (1, 0)))) ?v ?h"
    by (simp add: 4)
  then have 8: "PushBack string_type (Slot (1, 0)) ?v ?h = PushBack string_type (Outside []) ?v ?h"
    by (simp only: m)
  have 9: "elements (snd (PushBack string_type (Outside []) ?v ?h))
             (fst (PushBack string_type (Outside []) ?v ?h)) = [''a'', ''b'', []]"
    using PushBack_post(2) [OF 1 2, of string_type "[]"] by (simp add: 3)
  from 3 7 8 9 show ?thesis
    by (simp add: split_beta 5 GetSize_def GetCapacity_def 4)
qed

section \<open>Resize\<close>

text \<open>C3: \<open>Resize\<close> to at most the size only sets the size; to more than the size but
  at most the capacity it writes default values into the slots from the old size up to the
  new one and sets the size; to more than the capacity it allocates
  \<open>max(new_size, capacity * 2)\<close> slots, keeps the elements in order and follows them with
  default values. After \<open>Resize(0)\<close> and \<open>Resize(n)\<close> every element is a default
  value.\<close>

theorem Resize_three_cases:
  fixes T :: "'a element_type" and h :: "'a heap"
  assumes "heap_ok h" and "valid h v"
  shows "(n \<le> GetSize v \<longrightarrow> Resize T n v h = (v\<lparr>size_m := n\<rparr>, h)) \<and>
         (GetSize v < n \<and> n \<le> GetCapacity v \<longrightarrow>
            (case Resize T n v h of
               (v', h') \<Rightarrow>
                 v' = v\<lparr>size_m := n\<rparr> \<and>
                 block h' (data_m v) =
                   take (GetSize v) (block h (data_m v)) @
                   replicate (n - GetSize v) (Type_default T) @
                   drop n (block h (data_m v)))) \<and>
         (GetCapacity v < n \<longrightarrow>
            GetCapacity (fst (Resize T n v h)) = max n (GetCapacity v * 2)) \<and>
         (case Resize T n v h of
            (v', h') \<Rightarrow>
              GetSize v' = n \<and>
              elements h' v' =
                take n (elements h v) @ replicate (n - GetSize v) (Type_default T) \<and>
              heap_ok h' \<and> valid h' v') \<and>
         (case Resize T 0 v h of
            (v0, h0) \<Rightarrow>
              (case Resize T n v0 h0 of
                 (v', h') \<Rightarrow> elements h' v' = replicate n (Type_default T)))"
proof -
  note p = Resize_post [OF assms, of T n]
  have 1: "n \<le> GetSize v \<longrightarrow> Resize T n v h = (v\<lparr>size_m := n\<rparr>, h)"
    by (simp add: GetSize_def Resize_shrink)
  have 2: "GetSize v < n \<and> n \<le> GetCapacity v \<longrightarrow>
            (case Resize T n v h of
               (v', h') \<Rightarrow>
                 v' = v\<lparr>size_m := n\<rparr> \<and>
                 block h' (data_m v) =
                   take (GetSize v) (block h (data_m v)) @
                   replicate (n - GetSize v) (Type_default T) @
                   drop n (block h (data_m v)))"
  proof
    assume "GetSize v < n \<and> n \<le> GetCapacity v"
    then have n: "size_m v < n" "n \<le> capacity_m v" by (simp_all add: GetSize_def GetCapacity_def)
    note e = Resize_room [OF assms n, of T]
    show "case Resize T n v h of
               (v', h') \<Rightarrow>
                 v' = v\<lparr>size_m := n\<rparr> \<and>
                 block h' (data_m v) =
                   take (GetSize v) (block h (data_m v)) @
                   replicate (n - GetSize v) (Type_default T) @
                   drop n (block h (data_m v))"
      by (simp add: split_beta e(1) block_def [of "snd (Resize T n v h)"] e(2) GetSize_def)
  qed
  have 3: "GetCapacity v < n \<longrightarrow>
            GetCapacity (fst (Resize T n v h)) = max n (GetCapacity v * 2)"
    using valid_size [OF assms(2)] by (auto simp: GetCapacity_def Resize_capacity)
  have 4: "case Resize T n v h of
            (v', h') \<Rightarrow>
              GetSize v' = n \<and>
              elements h' v' =
                take n (elements h v) @ replicate (n - GetSize v) (Type_default T) \<and>
              heap_ok h' \<and> valid h' v'"
    using p(1) by (simp add: split_beta p(2) GetSize_def Resize_size framed_def)
  let ?v0 = "fst (Resize T 0 v h)" and ?h0 = "snd (Resize T 0 v h)"
  note p0 = Resize_post [OF assms, of T 0]
  have ok0: "heap_ok ?h0" "valid ?h0 ?v0" using p0(1) by (simp_all add: framed_def)
  have e0: "elements ?h0 ?v0 = []" "size_m ?v0 = 0" by (simp_all add: p0(2) Resize_size)
  have 5: "case Resize T 0 v h of
            (v0, h0) \<Rightarrow>
              (case Resize T n v0 h0 of
                 (v', h') \<Rightarrow> elements h' v' = replicate n (Type_default T))"
    by (simp add: split_beta Resize_post(2) [OF ok0, of T n] e0)
  from 1 2 3 4 5 show ?thesis by blast
qed

theorem Resize_three_cases_witness:
  "(case SimpleVector_init int_type [1, 2, 3, 4] empty_heap of
      (v, h) \<Rightarrow>
        heap_ok h \<and> valid h v \<and> elements h v = [1, 2, 3, 4] \<and>
        (case Resize int_type 0 v h of
           (v0, h0) \<Rightarrow>
             (case Resize int_type 3 v0 h0 of
                (v', h') \<Rightarrow> elements h' v' = [0, 0, 0] \<and> GetSize v' = 3 \<and> GetCapacity v' = 4)))"
proof -
  let ?v = "fst (SimpleVector_init int_type [1, 2, 3, 4] empty_heap)"
  let ?h = "snd (SimpleVector_init int_type [1, 2, 3, 4] empty_heap)"
  have 1: "heap_ok ?h"
    by (simp add: heap_ok_def SimpleVector_init_explicit empty_heap_def)
  have 2: "valid ?h ?v"
    by (simp add: valid_def SimpleVector_init_explicit empty_heap_def)
  have 3: "elements ?h ?v = [1, 2, 3, 4]"
    by (simp add: elements_def block_def SimpleVector_init_explicit empty_heap_def)
  have 4: "GetSize (fst (Resize int_type 3 (fst (Resize int_type 0 ?v ?h))
              (snd (Resize int_type 0 ?v ?h)))) = 3"
    "GetCapacity (fst (Resize int_type 3 (fst (Resize int_type 0 ?v ?h))
              (snd (Resize int_type 0 ?v ?h)))) = 4"
    by (simp_all add: GetSize_def GetCapacity_def Resize_size Resize_capacity
        SimpleVector_init_explicit)
  from Resize_three_cases [OF 1 2, where T = int_type and n = 3] 1 2 3 4
  show ?thesis by (simp add: split_beta int_type_def numeral_3_eq_3)
qed

section \<open>Insert\<close>

lemma Insert_move_summary:
  fixes T :: "'a element_type" and h :: "'a heap"
  assumes ok: "heap_ok h" and v: "valid h v" and i: "i \<le> GetSize v"
  shows "case Insert_move T (ptr_add (begin_it v) i) (Outside x) v h of
           Inl e \<Rightarrow> False
         | Inr (r, v', h') \<Rightarrow>
             elements h' v' = take i (elements h v) @ [x] @ drop i (elements h v) \<and>
             GetSize v' = GetSize v + 1 \<and>
             r = ptr_add (begin_it v') i \<and>
             deref h' r = x \<and>
             GetCapacity v' =
               (if GetSize v = GetCapacity v
                then (if GetCapacity v = 0 then 1 else GetCapacity v * 2)
                else GetCapacity v) \<and>
             heap_ok h' \<and> valid h' v'"
proof -
  have i': "i \<le> size_m v" using i by (simp add: GetSize_def)
  from Insert_move_post [OF ok v i', of T x] obtain v' h' where
    r: "Insert_move T (data_m v, i) (Outside x) v h = Inr ((data_m v', i), v', h')"
    and fr: "framed h v h' v'"
    and el: "elements h' v' = take i (elements h v) @ x # drop i (elements h v)"
    and sz: "size_m v' = Suc (size_m v)"
    and cp: "capacity_m v' =
             (if size_m v = capacity_m v then (if capacity_m v = 0 then 1 else capacity_m v * 2)
              else capacity_m v)"
    by blast
  have len: "length (elements h v) = size_m v" using ok v by (rule length_elements)
  have "deref h' (data_m v', i) = elements h' v' ! i"
    using i' sz by (intro deref_elements) simp
  also have "\<dots> = x" using i' len by (simp add: el nth_append)
  finally have d: "deref h' (data_m v', i) = x" .
  show ?thesis
    using fr el sz cp d
    by (simp add: r GetSize_def GetCapacity_def framed_def)
qed

text \<open>For an argument outside the arrays, \<open>Insert\<close> at the position \<open>begin() + i\<close>,
  for every \<open>i\<close> up to the size (\<open>begin() + size\<close> is \<open>end()\<close>), puts the value in
  front of the element at that position; the other elements keep their order, the size grows
  by one, and the returned iterator is \<open>begin() + i\<close> of the vector after the call and points
  at the value. A full vector gets twice its capacity, or capacity 1 when it had none. Both
  overloads behave so.\<close>

lemma Insert_outside_at_position:
  fixes T :: "'a element_type" and h :: "'a heap"
  assumes "heap_ok h" and "valid h v" and "i \<le> GetSize v"
  shows "(case Insert T (ptr_add (begin_it v) i) (Outside x) v h of
            Inl e \<Rightarrow> False
          | Inr (r, v', h') \<Rightarrow>
              elements h' v' = take i (elements h v) @ [x] @ drop i (elements h v) \<and>
              GetSize v' = GetSize v + 1 \<and>
              r = ptr_add (begin_it v') i \<and>
              deref h' r = x \<and>
              GetCapacity v' =
                (if GetSize v = GetCapacity v
                 then (if GetCapacity v = 0 then 1 else GetCapacity v * 2)
                 else GetCapacity v) \<and>
              heap_ok h' \<and> valid h' v') \<and>
         (case Insert_move T (ptr_add (begin_it v) i) (Outside x) v h of
            Inl e \<Rightarrow> False
          | Inr (r, v', h') \<Rightarrow>
              elements h' v' = take i (elements h v) @ [x] @ drop i (elements h v) \<and>
              GetSize v' = GetSize v + 1 \<and>
              r = ptr_add (begin_it v') i \<and>
              deref h' r = x \<and>
              GetCapacity v' =
                (if GetSize v = GetCapacity v
                 then (if GetCapacity v = 0 then 1 else GetCapacity v * 2)
                 else GetCapacity v) \<and>
              heap_ok h' \<and> valid h' v') \<and>
         ptr_add (begin_it v) (GetSize v) = end_it v"
proof -
  have "ptr_add (begin_it v) (GetSize v) = end_it v" by (simp add: GetSize_def)
  with Insert_move_summary [OF assms, where T = T and x = x]
    Insert_move_summary [OF assms, where T = "T\<lparr>moved_from := \<lambda>x. x\<rparr>" and x = x]
  show ?thesis by (simp only: Insert_Insert_move [of T] element_type.simps)
qed

lemma Insert_99_into_1_2_3:
  "(case SimpleVector_init int_type [1, 2, 3] empty_heap of
      (v, h) \<Rightarrow>
        heap_ok h \<and> valid h v \<and> 1 \<le> GetSize v \<and> elements h v = [1, 2, 3] \<and>
        (case Insert int_type (ptr_add (begin_it v) 1) (Outside 99) v h of
           Inl e \<Rightarrow> False
         | Inr (r, v', h') \<Rightarrow>
             elements h' v' = [1, 99, 2, 3] \<and> deref h' r = 99 \<and> r = ptr_add (begin_it v') 1 \<and>
             GetSize v' = 4 \<and> GetCapacity v' = 6))"
proof -
  let ?v = "fst (SimpleVector_init int_type [1, 2, 3] empty_heap)"
  let ?h = "snd (SimpleVector_init int_type [1, 2, 3] empty_heap)"
  have 1: "heap_ok ?h"
    by (simp add: heap_ok_def SimpleVector_init_explicit empty_heap_def)
  have 2: "valid ?h ?v"
    by (simp add: valid_def SimpleVector_init_explicit empty_heap_def)
  have 3: "1 \<le> GetSize ?v" "GetSize ?v = 3" "GetCapacity ?v = 3"
    by (simp_all add: GetSize_def GetCapacity_def SimpleVector_init_explicit)
  have 4: "elements ?h ?v = [1, 2, 3]"
    by (simp add: elements_def block_def SimpleVector_init_explicit empty_heap_def)
  from Insert_outside_at_position [OF 1 2 3(1), where T = int_type and x = 99] 1 2 3 4
  show ?thesis by (auto simp: split_beta split: sum.splits)
qed

text \<open>What \<open>Insert\<close> reads from a slot of an array: the value of the slot, unless there
  is room and the slot is one of those behind the position up to the end of the vector. Then
  \<open>std::copy_backward\<close> has shifted the elements before the reference is read, and the slot
  holds the value of the slot in front of it.\<close>

lemma shift_right_copy_nth:
  "n \<le> sz \<Longrightarrow> sz < length xs \<Longrightarrow>
   shift_right (\<lambda>x. x) sz n xs ! k =
     (if sz - n < k \<and> k \<le> sz then xs ! (k - 1) else xs ! k)"
proof (induction n arbitrary: k)
  case 0
  then show ?case by (auto simp: shift_right_def)
next
  case (Suc n)
  from Suc.prems have len: "length (shift_right (\<lambda>x. x) sz n xs) = length xs"
    using shift_right_nth [of n sz xs "\<lambda>x. x"] by simp
  from Suc show ?case
    by (auto simp: shift_right_Suc nth_list_update len)
qed

lemma valid_prefix: "valid h v \<Longrightarrow> n \<le> size_m v \<Longrightarrow> valid h (v\<lparr>size_m := n\<rparr>)"
  by (auto simp: valid_def split: option.splits if_splits)

lemma Insert_of_slot:
  fixes T :: "'a element_type" and h :: "'a heap"
  assumes ok: "heap_ok h" and v: "valid h v" and it: "it \<le> size_m v"
    and live: "blocks h (fst p) = Some ys" "snd p < length ys"
  shows "Insert T (data_m v, it) (Slot p) v h =
           Insert T (data_m v, it)
             (Outside (if size_m v \<noteq> capacity_m v \<and> fst p = data_m v \<and>
                          it < snd p \<and> snd p \<le> size_m v
                       then deref h (data_m v, snd p - 1) else deref h p)) v h"
proof (cases "size_m v = capacity_m v")
  case True
  define nc where "nc = (if capacity_m v = 0 then 1 else capacity_m v * 2)"
  let ?T = "T\<lparr>moved_from := \<lambda>x. x\<rparr>"
  let ?v = "v\<lparr>size_m := it\<rparr>"
  let ?h2 = "std_move ?T (data_m v, 0) (data_m v, it) (fresh h, 0) (snd (ArrayPtr_new T nc h))"
  have nc: "it \<le> nc" "0 < nc" using True it by (auto simp: nc_def)
  have v': "valid h ?v" using v it by (rule valid_prefix)
  have sz': "size_m ?v \<le> nc" using nc by simp
  have e: "Insert T (data_m v, it) (Slot p) v h =
           Insert T (data_m v, it) (Outside (deref ?h2 p)) v h"
    using True nc(2) it
    by (simp add: Insert_def Let_def split_beta copy_elem_def ArrayPtr_new_pos nc_def
        std_copy_std_move [where T = T])
  have ne: "fst p \<noteq> fresh h" using heap_ok_live [OF ok live(1)] by simp
  have "blocks ?h2 (fst p) = blocks h (fst p)"
  proof (cases "fst p = data_m v")
    case same: True
    have cap: "0 < capacity_m v"
      using live(1) same valid_empty [OF v] heap_ok_null [OF ok] by (cases "capacity_m v") auto
    from valid_buffer [OF v cap] have xs: "blocks h (data_m v) = Some (block h (data_m v))"
      "length (block h (data_m v)) = capacity_m v" by simp_all
    have cap': "0 < capacity_m ?v" using cap by simp
    from relocate_source [where T = "T\<lparr>moved_from := \<lambda>x. x\<rparr>", OF ok v' sz' nc(2) cap']
    have "blocks ?h2 (data_m v) =
        Some (map (\<lambda>x. x) (elements h ?v) @ drop it (block h (data_m v)))"
      by simp
    then show ?thesis using same xs by (simp add: elements_def)
  next
    case False
    have "fst p \<noteq> data_m ?v" using False by simp
    from relocate_others [where T = "T\<lparr>moved_from := \<lambda>x. x\<rparr>", OF ok v' sz' nc(2) this ne]
    show ?thesis by simp
  qed
  then have "deref ?h2 p = deref h p" by (simp add: deref_def block_def)
  with e True show ?thesis by simp
next
  case False
  let ?T = "T\<lparr>moved_from := \<lambda>x. x\<rparr>"
  let ?xs = "block h (data_m v)"
  let ?h1 = "std_move_backward ?T (data_m v, it) (data_m v, size_m v) (data_m v, Suc (size_m v)) h"
  have cap: "0 < capacity_m v" "size_m v < capacity_m v" using False valid_size [OF v] by simp_all
  from valid_buffer [OF v cap(1)] have xs: "blocks h (data_m v) = Some ?xs"
    "length ?xs = capacity_m v" by simp_all
  have e: "Insert T (data_m v, it) (Slot p) v h =
           Insert T (data_m v, it) (Outside (deref ?h1 p)) v h"
    using False it
    by (simp add: Insert_def Let_def copy_elem_def
        std_copy_backward_std_move_backward [where T = T])
  have h1: "blocks ?h1 = (blocks h)(data_m v \<mapsto> shift_right (\<lambda>x. x) (size_m v) (size_m v - it) ?xs)"
    using blocks_std_move_backward_right [OF xs(1), of ?T it "size_m v"] by simp
  have "deref ?h1 p =
      (if fst p = data_m v \<and> it < snd p \<and> snd p \<le> size_m v
       then deref h (data_m v, snd p - 1) else deref h p)"
  proof (cases "fst p = data_m v")
    case same: True
    have "deref ?h1 p = shift_right (\<lambda>x. x) (size_m v) (size_m v - it) ?xs ! snd p"
      using same by (simp add: deref_def block_def h1)
    also have "\<dots> = (if size_m v - (size_m v - it) < snd p \<and> snd p \<le> size_m v
                      then ?xs ! (snd p - 1) else ?xs ! snd p)"
      using cap xs by (intro shift_right_copy_nth) simp_all
    finally show ?thesis using same it by (simp add: deref_def)
  next
    case False
    then show ?thesis by (simp add: deref_def block_def h1)
  qed
  with e False show ?thesis by simp
qed


text \<open>So \<open>Insert\<close> inserts the value of every argument that is not in the buffer of the
  vector.\<close>

lemma Insert_of_other_object:
  fixes T :: "'a element_type" and h :: "'a heap"
  assumes "heap_ok h" and "valid h v" and "i \<le> GetSize v" and "refers_outside h v item"
  shows "case Insert T (ptr_add (begin_it v) i) item v h of
           Inl e \<Rightarrow> False
         | Inr (r, v', h') \<Rightarrow>
             elements h' v' = take i (elements h v) @ [value_of h item] @ drop i (elements h v) \<and>
             GetSize v' = GetSize v + 1 \<and>
             r = ptr_add (begin_it v') i \<and>
             deref h' r = value_of h item \<and>
             GetCapacity v' =
               (if GetSize v = GetCapacity v
                then (if GetCapacity v = 0 then 1 else GetCapacity v * 2)
                else GetCapacity v) \<and>
             heap_ok h' \<and> valid h' v'"
proof -
  have i: "i \<le> size_m v" using assms(3) by (simp add: GetSize_def)
  have "Insert T (data_m v, i) item v h = Insert T (data_m v, i) (Outside (value_of h item)) v h"
  proof (cases item)
    case (Slot p)
    with assms(4) obtain ys where "fst p \<noteq> data_m v" "blocks h (fst p) = Some ys"
      "snd p < length ys"
      by (auto simp: refers_outside_def split: option.splits)
    with Insert_of_slot [OF assms(1,2) i this(2,3), of T] Slot show ?thesis by simp
  next
    case (Outside x)
    then show ?thesis by simp
  qed
  then have "Insert T (ptr_add (begin_it v) i) item v h =
      Insert T (ptr_add (begin_it v) i) (Outside (value_of h item)) v h"
    by simp
  with Insert_outside_at_position [OF assms(1,2,3), where T = T and x = "value_of h item"]
  show ?thesis by simp
qed

text \<open>C4: \<open>Insert\<close> is to put the value of its argument in front of the position and to
  return an iterator to it, as its comment says. For an argument that is an element behind the
  position in a vector with room it does not: on the elements 1, 2, 3 with capacity 4,
  \<open>Insert(begin(), v[2])\<close> gives 2, 1, 2, 3 and an iterator to 2, where the claim has
  3, 1, 2, 3 and an iterator to 3.\<close>

theorem Insert_own_element:
  "(case SimpleVector_init int_type [1, 2, 3] empty_heap of
      (v0, h0) \<Rightarrow>
        (case SimpleVector_Reserve int_type 4 v0 h0 of
           (v, h) \<Rightarrow>
             (case Index 2 v of
                Inl e \<Rightarrow> False
              | Inr val \<Rightarrow>
                  elements h v = [1, 2, 3] \<and> deref h val = 3 \<and>
                  GetSize v = 3 \<and> GetCapacity v = 4 \<and>
                  (case Insert int_type (begin_it v) (Slot val) v h of
                     Inl e \<Rightarrow> False
                   | Inr (r, v', h') \<Rightarrow>
                       elements h' v' = [2, 1, 2, 3] \<and> deref h' r = 2 \<and> r = begin_it v' \<and>
                       elements h' v' \<noteq> deref h val # elements h v))))"
proof -
  let ?u = "fst (SimpleVector_init int_type [1, 2, 3] empty_heap)"
  let ?g = "snd (SimpleVector_init int_type [1, 2, 3] empty_heap)"
  let ?v = "fst (SimpleVector_Reserve int_type 4 ?u ?g)"
  let ?h = "snd (SimpleVector_Reserve int_type 4 ?u ?g)"
  let ?p = "(data_m ?v, 2 :: nat)"
  have ok0: "heap_ok ?g" by (intro heap_ok_init heap_ok_empty_heap)
  have v0: "valid ?g ?u" by (intro valid_init heap_ok_empty_heap)
  note p = Reserve_post [OF ok0 v0, of int_type 4]
  have ok: "heap_ok ?h" and v: "valid ?h ?v" using p(1) by (simp_all add: framed_def)
  have el: "elements ?h ?v = [1, 2, 3]" by (simp add: p(2) elements_init)
  have sz: "size_m ?v = 3" "capacity_m ?v = 4"
    by (simp_all add: Reserve_size Reserve_capacity SimpleVector_init_explicit)
  have ix: "Index 2 ?v = Inr ?p" by (simp add: Index_def sz)
  have d2: "deref ?h ?p = 3" "deref ?h (data_m ?v, 1) = 2"
    using deref_elements [of 2 ?v ?h] deref_elements [of 1 ?v ?h] by (simp_all add: sz el)
  have cap: "0 < capacity_m ?v" by (simp add: sz)
  from valid_buffer [OF v cap]
  have live: "blocks ?h (fst ?p) = Some (block ?h (data_m ?v))"
    "snd ?p < length (block ?h (data_m ?v))"
    by (simp_all add: sz)
  have it: "0 \<le> size_m ?v" by simp
  from Insert_of_slot [OF ok v it live, of int_type]
  have "Insert int_type (data_m ?v, 0) (Slot ?p) ?v ?h =
      Insert int_type (data_m ?v, 0) (Outside (deref ?h (data_m ?v, 1))) ?v ?h"
    by (simp add: sz)
  then have e: "Insert int_type (data_m ?v, 0) (Slot ?p) ?v ?h =
      Insert int_type (data_m ?v, 0) (Outside 2) ?v ?h"
    using d2 by simp
  have i: "0 \<le> GetSize ?v" by simp
  from Insert_outside_at_position [OF ok v i, where T = int_type and x = 2]
  obtain r v' h' where
    r: "Insert int_type (data_m ?v, 0) (Outside 2) ?v ?h = Inr (r, v', h')"
    and a: "elements h' v' = [2, 1, 2, 3]" "r = (data_m v', 0)" "deref h' r = 2"
    by (auto simp: el split: sum.splits)
  from el d2(1) a show ?thesis
    by (simp add: split_beta ix GetSize_def GetCapacity_def sz e r)
qed

section \<open>Erase\<close>

text \<open>C5: \<open>Erase\<close> at the position \<open>begin() + i\<close> of an element (\<open>i\<close> below the size)
  removes that element: the elements behind it move one slot to the front, the size shrinks by
  one and the capacity stays. The returned iterator is \<open>begin() + i\<close>; it points at the
  element that followed the erased one, or is \<open>end()\<close> when the last element was erased.\<close>

theorem Erase_at_position:
  fixes T :: "'a element_type" and h :: "'a heap"
  assumes "heap_ok h" and "valid h v" and "i < GetSize v"
  shows "case Erase T (ptr_add (begin_it v) i) v h of
           Inl e \<Rightarrow> False
         | Inr (r, v', h') \<Rightarrow>
             elements h' v' = take i (elements h v) @ drop (Suc i) (elements h v) \<and>
             (\<forall>k. i \<le> k \<and> k < GetSize v' \<longrightarrow> elements h' v' ! k = elements h v ! Suc k) \<and>
             (\<forall>k. k < i \<longrightarrow> elements h' v' ! k = elements h v ! k) \<and>
             GetSize v' = GetSize v - 1 \<and>
             GetCapacity v' = GetCapacity v \<and>
             r = ptr_add (begin_it v') i \<and>
             (if Suc i < GetSize v then deref h' r = elements h v ! Suc i else r = end_it v') \<and>
             heap_ok h' \<and> valid h' v'"
proof -
  have i: "i < size_m v" using assms(3) by (simp add: GetSize_def)
  let ?v = "v\<lparr>size_m := size_m v - 1\<rparr>"
  from Erase_post [OF assms(1,2) i, of T] obtain h' where
    r: "Erase T (data_m v, i) v h = Inr ((data_m v, i), ?v, h')"
    and fr: "framed h v h' ?v"
    and el: "elements h' ?v = take i (elements h v) @ drop (Suc i) (elements h v)"
    and d: "Suc i < size_m v \<longrightarrow> deref h' (data_m v, i) = elements h v ! Suc i"
    by blast
  have len: "length (elements h v) = size_m v" using assms(1,2) by (rule length_elements)
  have 1: "\<forall>k. i \<le> k \<and> k < size_m v - 1 \<longrightarrow> elements h' ?v ! k = elements h v ! Suc k"
    unfolding el using len i by (auto simp: nth_append min_def)
  have 2: "\<forall>k. k < i \<longrightarrow> elements h' ?v ! k = elements h v ! k"
    unfolding el using len i by (auto simp: nth_append)
  show ?thesis
    using fr el d i 1 2
    by (auto simp: r GetSize_def GetCapacity_def framed_def)
qed

theorem Erase_at_position_witness:
  "(case SimpleVector_init int_type [1, 2, 3] empty_heap of
      (v, h) \<Rightarrow>
        heap_ok h \<and> valid h v \<and> 0 < GetSize v \<and> elements h v = [1, 2, 3] \<and>
        (case Erase int_type (ptr_add (begin_it v) 0) v h of
           Inl e \<Rightarrow> False
         | Inr (r, v', h') \<Rightarrow>
             elements h' v' = [2, 3] \<and> deref h' r = 2 \<and> r = begin_it v' \<and>
             GetSize v' = 2 \<and> GetCapacity v' = 3))"
proof -
  let ?v = "fst (SimpleVector_init int_type [1, 2, 3] empty_heap)"
  let ?h = "snd (SimpleVector_init int_type [1, 2, 3] empty_heap)"
  have 1: "heap_ok ?h"
    by (simp add: heap_ok_def SimpleVector_init_explicit empty_heap_def)
  have 2: "valid ?h ?v"
    by (simp add: valid_def SimpleVector_init_explicit empty_heap_def)
  have 3: "0 < GetSize ?v" "GetSize ?v = 3" "GetCapacity ?v = 3"
    by (simp_all add: GetSize_def GetCapacity_def SimpleVector_init_explicit)
  have 4: "elements ?h ?v = [1, 2, 3]"
    by (simp add: elements_def block_def SimpleVector_init_explicit empty_heap_def)
  from Erase_at_position [OF 1 2 3(1), where T = int_type] 1 2 3 4
  show ?thesis by (auto simp: split_beta split: sum.splits)
qed

section \<open>At\<close>

text \<open>C7: \<open>At\<close> throws \<open>std::out_of_range\<close> exactly when the index is not below the size,
  and returns the reference to the element with that index otherwise; so \<open>At(size)\<close> throws
  and \<open>At(size - 1)\<close> of a non-empty vector does not. No other member function throws this
  exception: in a run of calls it comes from \<open>At\<close> alone.\<close>

theorem At_out_of_range:
  "(At index v = Inl out_of_range \<longleftrightarrow> index \<ge> GetSize v) \<and>
   (index < GetSize v \<longrightarrow>
      At index v = Inr (ptr_add (begin_it v) index) \<and>
      deref h (ptr_add (begin_it v) index) = elements h v ! index) \<and>
   At (GetSize v) v = Inl out_of_range \<and>
   (\<not> IsEmpty v \<longrightarrow>
      At (GetSize v - 1) v = Inr (ptr_add (begin_it v) (GetSize v - 1)) \<and>
      deref h (ptr_add (begin_it v) (GetSize v - 1)) = elements h v ! (GetSize v - 1)) \<and>
   At index v \<noteq> Inl assertion_failed \<and>
   Index index v \<noteq> Inl out_of_range \<and>
   PopBack v \<noteq> Inl out_of_range \<and>
   Insert T pos item v h \<noteq> Inl out_of_range \<and>
   Insert_move T pos item v h \<noteq> Inl out_of_range \<and>
   Erase T pos v h \<noteq> Inl out_of_range \<and>
   (apply_call T c (v, h) = Inl out_of_range \<longrightarrow>
      (\<exists>i y. c = Call_At_assign i y \<and> i \<ge> GetSize v))"
proof -
  have call: "apply_call T c (v, h) = Inl out_of_range \<longrightarrow>
      (\<exists>i y. c = Call_At_assign i y \<and> i \<ge> GetSize v)"
    by (cases c)
      (auto simp: Insert_def Insert_move_def Erase_def PopBack_def Index_def At_def GetSize_def
        Let_def split_beta split: sum.splits if_splits)
  have "index < GetSize v \<longrightarrow> deref h (ptr_add (begin_it v) index) = elements h v ! index"
    by (simp add: GetSize_def deref_elements)
  moreover have "\<not> IsEmpty v \<longrightarrow>
      deref h (ptr_add (begin_it v) (GetSize v - 1)) = elements h v ! (GetSize v - 1)"
    by (simp add: GetSize_def IsEmpty_def deref_elements)
  ultimately show ?thesis
    using call
    by (auto simp: At_def Index_def PopBack_def Insert_def Insert_move_def Erase_def GetSize_def
        IsEmpty_def Let_def split_beta)
qed

theorem At_out_of_range_witness:
  "(case SimpleVector_init int_type [1, 2, 3] empty_heap of
      (v, h) \<Rightarrow>
        At 3 v = Inl out_of_range \<and> At 7 v = Inl out_of_range \<and>
        At 2 v = Inr (ptr_add (begin_it v) 2) \<and> deref h (ptr_add (begin_it v) 2) = 3 \<and>
        \<not> IsEmpty v \<and> 2 < GetSize v)"
proof -
  let ?v = "fst (SimpleVector_init int_type [1, 2, 3] empty_heap)"
  let ?h = "snd (SimpleVector_init int_type [1, 2, 3] empty_heap)"
  have 1: "GetSize ?v = 3" "\<not> IsEmpty ?v"
    by (simp_all add: GetSize_def IsEmpty_def SimpleVector_init_explicit)
  have 2: "elements ?h ?v = [1, 2, 3]"
    by (simp add: elements_def block_def SimpleVector_init_explicit empty_heap_def)
  from At_out_of_range [where index = 2 and v = ?v and h = ?h]
    At_out_of_range [where index = 7 and v = ?v and h = ?h] 1 2
  show ?thesis by (simp add: split_beta)
qed

section \<open>Reserve\<close>

lemma push_all_room:
  fixes T :: "'a element_type" and h :: "'a heap"
  assumes "heap_ok h" "valid h v" "size_m v + length xs \<le> capacity_m v"
  shows "capacity_m (fst (fold (\<lambda>x (v, h). PushBack T (Outside x) v h) xs (v, h))) = capacity_m v \<and>
         data_m (fst (fold (\<lambda>x (v, h). PushBack T (Outside x) v h) xs (v, h))) = data_m v"
  using assms
proof (induction xs arbitrary: v h)
  case Nil
  then show ?case by simp
next
  case (Cons x xs)
  let ?v = "fst (PushBack T (Outside x) v h)" and ?h = "snd (PushBack T (Outside x) v h)"
  have room: "size_m v \<noteq> capacity_m v" using Cons.prems(3) by simp
  note p = PushBack_post [OF Cons.prems(1,2), of T x]
  have ok: "heap_ok ?h" "valid ?h ?v" using p(1) by (simp_all add: framed_def)
  have c: "capacity_m ?v = capacity_m v" "data_m ?v = data_m v" "size_m ?v = Suc (size_m v)"
    using room by (simp_all add: PushBack_capacity PushBack_data PushBack_size)
  have "size_m ?v + length xs \<le> capacity_m ?v" using Cons.prems(3) c by simp
  from Cons.IH [OF ok this] c show ?case by (simp add: split_beta)
qed

text \<open>C6, with the bound on the pushed values made exact: \<open>Reserve\<close> with more than
  the capacity makes the capacity exactly that, and the size and the elements stay as they are; otherwise nothing changes, so the
  capacity never shrinks. When the size of the vector and the number of values together are at
  most \<open>k\<close>, pushing the values after \<open>Reserve(k)\<close> does not reallocate: after each of them
  the buffer is the same array and the capacity is the larger of \<open>k\<close> and the old
  capacity, which is \<open>k\<close> for a vector whose capacity was at most \<open>k\<close>.\<close>

theorem Reserve_then_PushBack:
  fixes T :: "'a element_type" and h :: "'a heap"
  assumes "heap_ok h" and "valid h v"
  shows "case SimpleVector_Reserve T k v h of
           (v', h') \<Rightarrow>
             (GetCapacity v < k \<longrightarrow> GetCapacity v' = k) \<and>
             (\<not> GetCapacity v < k \<longrightarrow> v' = v \<and> h' = h) \<and>
             GetCapacity v \<le> GetCapacity v' \<and>
             GetSize v' = GetSize v \<and>
             elements h' v' = elements h v \<and>
             heap_ok h' \<and> valid h' v' \<and>
             (\<forall>xs. GetSize v + length xs \<le> k \<longrightarrow>
                (case fold (\<lambda>x (v, h). PushBack T (Outside x) v h) xs (v', h') of
                   (v'', h'') \<Rightarrow>
                     GetCapacity v'' = max k (GetCapacity v) \<and>
                     (GetCapacity v \<le> k \<longrightarrow> GetCapacity v'' = k) \<and>
                     data_m v'' = data_m v' \<and>
                     elements h'' v'' = elements h v @ xs))"
proof -
  let ?v = "fst (SimpleVector_Reserve T k v h)" and ?h = "snd (SimpleVector_Reserve T k v h)"
  note p = Reserve_post [OF assms, of T k]
  have ok: "heap_ok ?h" "valid ?h ?v" using p(1) by (simp_all add: framed_def)
  have c: "capacity_m ?v = max k (capacity_m v)" "size_m ?v = size_m v"
    by (simp_all add: Reserve_capacity Reserve_size)
  have keep: "\<not> GetCapacity v < k \<longrightarrow> ?v = v \<and> ?h = h"
    by (simp add: GetCapacity_def Reserve_keep)
  have push: "\<forall>xs. GetSize v + length xs \<le> k \<longrightarrow>
                (case fold (\<lambda>x (v, h). PushBack T (Outside x) v h) xs (?v, ?h) of
                   (v'', h'') \<Rightarrow>
                     GetCapacity v'' = max k (GetCapacity v) \<and>
                     (GetCapacity v \<le> k \<longrightarrow> GetCapacity v'' = k) \<and>
                     data_m v'' = data_m ?v \<and>
                     elements h'' v'' = elements h v @ xs)"
  proof (intro allI impI)
    fix xs :: "'a list"
    assume "GetSize v + length xs \<le> k"
    then have "size_m ?v + length xs \<le> capacity_m ?v" by (simp add: c GetSize_def)
    from push_all_room [OF ok this, of T] push_all [OF ok, of T xs]
    show "case fold (\<lambda>x (v, h). PushBack T (Outside x) v h) xs (?v, ?h) of
                   (v'', h'') \<Rightarrow>
                     GetCapacity v'' = max k (GetCapacity v) \<and>
                     (GetCapacity v \<le> k \<longrightarrow> GetCapacity v'' = k) \<and>
                     data_m v'' = data_m ?v \<and>
                     elements h'' v'' = elements h v @ xs"
      by (auto simp: split_beta c p(2) GetCapacity_def)
  qed
  show ?thesis
    using ok keep push
    by (simp add: split_beta c p(2) GetCapacity_def GetSize_def)
qed

theorem Reserve_then_PushBack_witness:
  "(case SimpleVector_init int_type [1, 2, 3] empty_heap of
      (v, h) \<Rightarrow>
        heap_ok h \<and> valid h v \<and> GetCapacity v < 5 \<and> GetSize v + length [4 :: int, 5] \<le> 5 \<and>
        (case SimpleVector_Reserve int_type 5 v h of
           (v', h') \<Rightarrow>
             GetCapacity v' = 5 \<and> elements h' v' = [1, 2, 3] \<and>
             (case fold (\<lambda>x (v, h). PushBack int_type (Outside x) v h) [4, 5] (v', h') of
                (v'', h'') \<Rightarrow>
                  GetCapacity v'' = 5 \<and> data_m v'' = data_m v' \<and>
                  elements h'' v'' = [1, 2, 3, 4, 5])))"
proof -
  let ?v = "fst (SimpleVector_init int_type [1, 2, 3] empty_heap)"
  let ?h = "snd (SimpleVector_init int_type [1, 2, 3] empty_heap)"
  have 1: "heap_ok ?h"
    by (simp add: heap_ok_def SimpleVector_init_explicit empty_heap_def)
  have 2: "valid ?h ?v"
    by (simp add: valid_def SimpleVector_init_explicit empty_heap_def)
  have 3: "GetSize ?v = 3" "GetCapacity ?v = 3"
    by (simp_all add: GetSize_def GetCapacity_def SimpleVector_init_explicit)
  have 4: "elements ?h ?v = [1, 2, 3]"
    by (simp add: elements_def block_def SimpleVector_init_explicit empty_heap_def)
  have 5: "GetSize ?v + length [4 :: int, 5] \<le> 5" by (simp add: 3)
  note t = Reserve_then_PushBack [OF 1 2, where T = int_type and k = 5]
  let ?v' = "fst (SimpleVector_Reserve int_type 5 ?v ?h)"
  let ?h' = "snd (SimpleVector_Reserve int_type 5 ?v ?h)"
  let ?r = "fold (\<lambda>x (v, h). PushBack int_type (Outside x) v h) [4, 5] (?v', ?h')"
  from t have a: "GetCapacity ?v' = 5" "elements ?h' ?v' = [1, 2, 3]"
    by (simp_all add: split_beta 3 4)
  from t have "\<forall>xs. GetSize ?v + length xs \<le> 5 \<longrightarrow>
     GetCapacity (fst (fold (\<lambda>x (v, h). PushBack int_type (Outside x) v h) xs (?v', ?h'))) = 5 \<and>
     data_m (fst (fold (\<lambda>x (v, h). PushBack int_type (Outside x) v h) xs (?v', ?h'))) = data_m ?v' \<and>
     elements (snd (fold (\<lambda>x (v, h). PushBack int_type (Outside x) v h) xs (?v', ?h')))
       (fst (fold (\<lambda>x (v, h). PushBack int_type (Outside x) v h) xs (?v', ?h'))) = elements ?h ?v @ xs"
    by (simp add: split_beta 3 del: fold.simps)
  from this [rule_format, OF 5]
  have b: "GetCapacity (fst ?r) = 5" "data_m (fst ?r) = data_m ?v'"
    "elements (snd ?r) (fst ?r) = [1, 2, 3, 4, 5]"
    by (simp_all add: 4 del: fold.simps)
  from 1 2 3 4 5 a b show ?thesis by (simp add: split_beta del: fold.simps)
qed

text \<open>The claim as it was stated fails for a vector that is not empty: after
  \<open>Reserve(4)\<close> on the elements 1, 2, 3, the second of two calls of \<open>PushBack\<close>
  reallocates, and the capacity is 8. It also fails where the capacity was above \<open>k\<close>:
  \<open>Reserve(4)\<close> leaves a capacity of 8 as it is.\<close>

theorem Reserve_then_PushBack_counterexample:
  "(case SimpleVector_init int_type [1, 2, 3] empty_heap of
      (v, h) \<Rightarrow>
        (case SimpleVector_Reserve int_type 4 v h of
           (v', h') \<Rightarrow>
             (case fold (\<lambda>x (v, h). PushBack int_type (Outside x) v h) [4, 5] (v', h') of
                (v'', h'') \<Rightarrow>
                  length [4 :: int, 5] \<le> 4 \<and> GetCapacity v' = 4 \<and>
                  GetCapacity v'' = 8 \<and> GetCapacity v'' \<noteq> 4 \<and> data_m v'' \<noteq> data_m v'))) \<and>
   (case SimpleVector_reserved int_type (Reserve 8) empty_heap of
      (v, h) \<Rightarrow>
        (case SimpleVector_Reserve int_type 4 v h of
           (v', h') \<Rightarrow>
             (case fold (\<lambda>x (v, h). PushBack int_type (Outside x) v h) [1, 2] (v', h') of
                (v'', h'') \<Rightarrow>
                  length [1 :: int, 2] \<le> 4 \<and> GetCapacity v'' = 8 \<and> GetCapacity v'' \<noteq> 4)))"
  by (simp add: split_beta GetCapacity_def PushBack_capacity PushBack_size Reserve_capacity
      Reserve_size SimpleVector_init_explicit SimpleVector_reserved_def Reserve_def
      ReserveProxyObj_GetCapacity_def ArrayPtr_new_def PushBack_def SimpleVector_Reserve_def
      ArrayPtr_swap_def empty_heap_def)

section \<open>Copy construction and copy assignment\<close>

lemma destroy_other:
  fixes h :: "'a heap"
  assumes ok: "heap_ok h" and d: "valid h d" and w: "valid h w" and sep: "separated d w"
  shows "heap_ok (destroy d h)" and "valid (destroy d h) w"
    and "elements (destroy d h) w = elements h w"
proof -
  have "0 < a \<and> a < fresh (destroy d h)" if "blocks (destroy d h) a = Some ys" for a ys
    using that heap_ok_live [OF ok, of a ys] by (auto simp: destroy_def split: if_splits)
  then show "heap_ok (destroy d h)"
    using heap_ok_fresh_pos [OF ok] by (auto simp: heap_ok_def destroy_def)
  have same: "blocks (destroy d h) (data_m w) = blocks h (data_m w)"
  proof (cases "capacity_m w = 0")
    case True
    then show ?thesis
      using valid_empty [OF w] heap_ok_null [OF ok] by (simp add: destroy_def)
  next
    case False
    then have cap: "0 < capacity_m w" by simp
    from valid_buffer [OF w cap] have live: "blocks h (data_m w) = Some (block h (data_m w))"
      by simp
    from heap_ok_live [OF ok live] have "data_m w \<noteq> 0" by simp
    then have "data_m d \<noteq> data_m w"
      using sep cap valid_empty [OF d] by (auto simp: separated_def)
    then show ?thesis by (simp add: destroy_def)
  qed
  show "valid (destroy d h) w" using w by (simp add: valid_def same)
  show "elements (destroy d h) w = elements h w" by (simp add: elements_def block_def same)
qed

lemma swap_explicit: "swap v w = (w, v)"
  by (cases v, cases w) (simp add: swap_def ArrayPtr_swap_def)

lemma operator_assign_copy_post:
  fixes T :: "'a element_type" and s :: "'a program_state"
  assumes ok: "heap_ok (memory s)"
    and d: "valid (memory s) (object s dst)" and r: "valid (memory s) (object s src)"
    and sep: "separated (object s dst) (object s src)" and ne: "dst \<noteq> src"
  shows "heap_ok (memory (operator_assign_copy T dst src s))"
    and "valid (memory (operator_assign_copy T dst src s))
           (object (operator_assign_copy T dst src s) dst)"
    and "valid (memory (operator_assign_copy T dst src s))
           (object (operator_assign_copy T dst src s) src)"
    and "separated (object (operator_assign_copy T dst src s) dst)
           (object (operator_assign_copy T dst src s) src)"
    and "elements (memory (operator_assign_copy T dst src s))
           (object (operator_assign_copy T dst src s) dst) = elements (memory s) (object s src)"
    and "elements (memory (operator_assign_copy T dst src s))
           (object (operator_assign_copy T dst src s) src) = elements (memory s) (object s src)"
    and "object (operator_assign_copy T dst src s) src = object s src"
    and "size_m (object (operator_assign_copy T dst src s) dst) = size_m (object s src)"
proof -
  let ?h = "memory s" and ?d = "object s dst" and ?r = "object s src"
  let ?c = "fst (SimpleVector_copy T ?r ?h)" and ?h1 = "snd (SimpleVector_copy T ?r ?h)"
  let ?s = "operator_assign_copy T dst src s"
  note p = SimpleVector_copy_post [OF ok r, where T = T]
  note e = SimpleVector_copy_explicit [OF ok r, where T = T]
  have m: "memory ?s = destroy ?d ?h1" and od: "object ?s dst = ?c" and os: "object ?s src = ?r"
    using ne by (simp_all add: operator_assign_copy_def split_beta swap_explicit)
  have dne: "data_m ?d \<noteq> fresh ?h" using ok d by (rule valid_data_not_fresh)
  have d1: "valid ?h1 ?d" using d p(7) [OF dne] by (simp add: valid_def)
  have sep_c: "separated ?d ?c" using dne by (auto simp: separated_def e(1))
  note dc = destroy_other [OF p(1) d1 p(2) sep_c]
  note dr = destroy_other [OF p(1) d1 p(3) sep]
  show "heap_ok (memory ?s)" using dc(1) by (simp add: m)
  show "valid (memory ?s) (object ?s dst)" using dc(2) by (simp add: m od)
  show "valid (memory ?s) (object ?s src)" using dr(2) by (simp add: m os)
  show "separated (object ?s dst) (object ?s src)" using p(4) by (simp add: od os)
  show "elements (memory ?s) (object ?s dst) = elements ?h ?r" by (simp add: m od dc(3) p(5))
  show "elements (memory ?s) (object ?s src) = elements ?h ?r" by (simp add: m os dr(3) p(6))
  show "object ?s src = ?r" by (rule os)
  show "size_m (object ?s dst) = size_m ?r" by (simp add: od e(1))
qed

text \<open>C8: the copy constructor and the copy assignment give a vector of the size of the
  original whose elements are those of the original, so \<open>operator==\<close> holds between the
  two, and the original is as it was. The copy has a buffer of its own: whatever modifiers are
  called on the copy afterwards (also with an element of the original or of the copy as the
  argument of a copying \<open>PushBack\<close> or \<open>Insert\<close>) and whatever is assigned to its
  elements, the original keeps its size and its elements.\<close>

theorem copy_is_equal_and_independent:
  fixes T :: "'a element_type" and h :: "'a heap" and s :: "'a program_state"
  shows "(heap_ok h \<and> valid h v \<longrightarrow>
           (case SimpleVector_copy T v h of
              (c, h') \<Rightarrow>
                GetSize c = GetSize v \<and>
                elements h' c = elements h v \<and>
                equal_op h' c v \<and>
                elements h' v = elements h v \<and>
                heap_ok h' \<and> valid h' c \<and> valid h' v \<and>
                (\<forall>cs. case apply_calls T cs (c, h') of
                        Inl e \<Rightarrow> True
                      | Inr (c', h'') \<Rightarrow>
                          elements h'' v = elements h v \<and> valid h'' v \<and> valid h'' c'))) \<and>
         (heap_ok (memory s) \<and> valid (memory s) (object s dst) \<and>
          valid (memory s) (object s src) \<and> separated (object s dst) (object s src) \<and>
          dst \<noteq> src \<longrightarrow>
           (let s' = operator_assign_copy T dst src s in
                object s' src = object s src \<and>
                GetSize (object s' dst) = GetSize (object s src) \<and>
                elements (memory s') (object s' dst) = elements (memory s) (object s src) \<and>
                equal_op (memory s') (object s' dst) (object s' src) \<and>
                elements (memory s') (object s' src) = elements (memory s) (object s src) \<and>
                heap_ok (memory s') \<and> valid (memory s') (object s' dst) \<and>
                valid (memory s') (object s' src) \<and>
                (\<forall>cs. case apply_calls T cs (object s' dst, memory s') of
                        Inl e \<Rightarrow> True
                      | Inr (c', h'') \<Rightarrow>
                          elements h'' (object s' src) = elements (memory s) (object s src) \<and>
                          valid h'' (object s' src) \<and> valid h'' c')))"
proof (intro conjI impI)
  assume a: "heap_ok h \<and> valid h v"
  then have ok: "heap_ok h" and v: "valid h v" by simp_all
  let ?c = "fst (SimpleVector_copy T v h)" and ?h = "snd (SimpleVector_copy T v h)"
  note p = SimpleVector_copy_post [OF ok v, where T = T]
  note e = SimpleVector_copy_explicit [OF ok v, where T = T]
  have eq: "equal_op ?h ?c v" using p by (simp add: equal_op_iff)
  have iso: "case apply_calls T cs (?c, ?h) of
                        Inl e \<Rightarrow> True
                      | Inr (c', h'') \<Rightarrow>
                          elements h'' v = elements h v \<and> valid h'' v \<and> valid h'' c'" for cs
  proof (cases "apply_calls T cs (?c, ?h)")
    case (Inl e)
    then show ?thesis by simp
  next
    case (Inr z)
    then obtain c' h'' where z: "apply_calls T cs (?c, ?h) = Inr (c', h'')" by (cases z) simp
    from z have z': "apply_calls T cs (SimpleVector_copy T v h) = Inr (c', h'')" by simp
    from apply_calls_isolated [OF p(1) p(2) p(3) p(4) z] p(6) show ?thesis by (simp add: z')
  qed
  show "case SimpleVector_copy T v h of
              (c, h') \<Rightarrow>
                GetSize c = GetSize v \<and>
                elements h' c = elements h v \<and>
                equal_op h' c v \<and>
                elements h' v = elements h v \<and>
                heap_ok h' \<and> valid h' c \<and> valid h' v \<and>
                (\<forall>cs. case apply_calls T cs (c, h') of
                        Inl e \<Rightarrow> True
                      | Inr (c', h'') \<Rightarrow>
                          elements h'' v = elements h v \<and> valid h'' v \<and> valid h'' c')"
    using p(1,2,3,5,6) eq iso by (simp add: split_beta GetSize_def e(1))
next
  assume a: "heap_ok (memory s) \<and> valid (memory s) (object s dst) \<and>
          valid (memory s) (object s src) \<and> separated (object s dst) (object s src) \<and>
          dst \<noteq> src"
  let ?s = "operator_assign_copy T dst src s"
  from a have ok: "heap_ok (memory s)"
    and d: "valid (memory s) (object s dst)" and r: "valid (memory s) (object s src)"
    and sep: "separated (object s dst) (object s src)" and ne: "dst \<noteq> src"
    by simp_all
  note p = operator_assign_copy_post [OF ok d r sep ne, where T = T]
  have eq: "equal_op (memory ?s) (object ?s dst) (object ?s src)"
    using p(1,2,3) by (simp add: equal_op_iff p(5,6))
  have iso: "case apply_calls T cs (object ?s dst, memory ?s) of
                        Inl e \<Rightarrow> True
                      | Inr (c', h'') \<Rightarrow>
                          elements h'' (object ?s src) = elements (memory s) (object s src) \<and>
                          valid h'' (object ?s src) \<and> valid h'' c'" for cs
  proof (cases "apply_calls T cs (object ?s dst, memory ?s)")
    case (Inl e)
    then show ?thesis by simp
  next
    case (Inr z)
    then obtain c' h'' where z: "apply_calls T cs (object ?s dst, memory ?s) = Inr (c', h'')"
      by (cases z) simp
    from apply_calls_isolated [OF p(1) p(2) p(3) p(4) z] p(6) show ?thesis by (simp add: z)
  qed
  show "(let s' = operator_assign_copy T dst src s in
                object s' src = object s src \<and>
                GetSize (object s' dst) = GetSize (object s src) \<and>
                elements (memory s') (object s' dst) = elements (memory s) (object s src) \<and>
                equal_op (memory s') (object s' dst) (object s' src) \<and>
                elements (memory s') (object s' src) = elements (memory s) (object s src) \<and>
                heap_ok (memory s') \<and> valid (memory s') (object s' dst) \<and>
                valid (memory s') (object s' src) \<and>
                (\<forall>cs. case apply_calls T cs (object s' dst, memory s') of
                        Inl e \<Rightarrow> True
                      | Inr (c', h'') \<Rightarrow>
                          elements h'' (object s' src) = elements (memory s) (object s src) \<and>
                          valid h'' (object s' src) \<and> valid h'' c'))"
    using p(1,2,3,5,6,7,8) eq iso by (simp add: GetSize_def Let_def)
qed

lemma two_vectors_explicit:
  "object two_vectors 0 = \<lparr>size_m = 3, capacity_m = 3, data_m = 1\<rparr>"
  "object two_vectors (Suc 0) = \<lparr>size_m = 2, capacity_m = 2, data_m = 2\<rparr>"
  "blocks (memory two_vectors) = [1 \<mapsto> [1, 2, 3], 2 \<mapsto> [4, 5]]"
  "fresh (memory two_vectors) = 3"
  by (simp_all add: two_vectors_def split_beta SimpleVector_init_explicit empty_heap_def
      numeral_2_eq_2 numeral_3_eq_3)

theorem copy_is_equal_and_independent_witness:
  "(case SimpleVector_init int_type [1, 2, 3] empty_heap of
      (v, h) \<Rightarrow>
        heap_ok h \<and> valid h v \<and> elements h v = [1, 2, 3] \<and>
        (case SimpleVector_copy int_type v h of
           (c, h') \<Rightarrow>
             elements h' c = [1, 2, 3] \<and> equal_op h' c v \<and>
             (case apply_calls int_type [Call_PushBack (Outside 9)] (c, h') of
                Inl e \<Rightarrow> False
              | Inr (c', h'') \<Rightarrow>
                  elements h'' c' = [1, 2, 3, 9] \<and> elements h'' v = [1, 2, 3]))) \<and>
   heap_ok (memory two_vectors) \<and>
   valid (memory two_vectors) (object two_vectors 1) \<and>
   valid (memory two_vectors) (object two_vectors 0) \<and>
   separated (object two_vectors 1) (object two_vectors 0) \<and>
   (1 :: nat) \<noteq> 0 \<and>
   elements (memory two_vectors) (object two_vectors 1) = [4, 5] \<and>
   (let s' = operator_assign_copy int_type 1 0 two_vectors in
      elements (memory s') (object s' 1) = [1, 2, 3] \<and>
      elements (memory s') (object s' 0) = [1, 2, 3] \<and>
      equal_op (memory s') (object s' 1) (object s' 0) \<and>
      (case apply_calls int_type [Call_Clear] (object s' 1, memory s') of
         Inl e \<Rightarrow> False
       | Inr (c', h'') \<Rightarrow> elements h'' c' = [] \<and> elements h'' (object s' 0) = [1, 2, 3]))"
proof -
  let ?v = "fst (SimpleVector_init int_type [1, 2, 3] empty_heap)"
  let ?h = "snd (SimpleVector_init int_type [1, 2, 3] empty_heap)"
  have 1: "heap_ok ?h"
    by (simp add: heap_ok_def SimpleVector_init_explicit empty_heap_def)
  have 2: "valid ?h ?v"
    by (simp add: valid_def SimpleVector_init_explicit empty_heap_def)
  have 3: "elements ?h ?v = [1, 2, 3]"
    by (simp add: elements_def block_def SimpleVector_init_explicit empty_heap_def)
  obtain c h' where ch: "SimpleVector_copy int_type ?v ?h = (c, h')"
    by (cases "SimpleVector_copy int_type ?v ?h")
  have call: "apply_calls int_type [Call_PushBack (Outside 9)] (c, h') = Inr (PushBack int_type (Outside 9) c h')"
    by simp
  obtain c' h'' where p: "PushBack int_type (Outside 9) c h' = (c', h'')"
    by (cases "PushBack int_type (Outside 9) c h'")
  note t = copy_is_equal_and_independent [where T = int_type and h = ?h and v = ?v
      and s = two_vectors and dst = 1 and src = 0]
  from t 1 2 have a: "elements h' c = [1, 2, 3]" "equal_op h' c ?v" "heap_ok h'" "valid h' c"
    and iso: "\<forall>cs. case apply_calls int_type cs (c, h') of
                        Inl e \<Rightarrow> True
                      | Inr (c', h'') \<Rightarrow>
                          elements h'' ?v = elements ?h ?v \<and> valid h'' ?v \<and> valid h'' c'"
    by (simp_all add: ch 3)
  from iso [rule_format, of "[Call_PushBack (Outside 9)]"] have b: "elements h'' ?v = [1, 2, 3]"
    by (simp add: p 3)
  from PushBack_post(2) [OF a(3,4), of int_type 9] have c: "elements h'' c' = [1, 2, 3, 9]"
    by (simp add: p a(1))
  have first: "case SimpleVector_init int_type [1, 2, 3] empty_heap of
      (v, h) \<Rightarrow>
        heap_ok h \<and> valid h v \<and> elements h v = [1, 2, 3] \<and>
        (case SimpleVector_copy int_type v h of
           (c, h') \<Rightarrow>
             elements h' c = [1, 2, 3] \<and> equal_op h' c v \<and>
             (case apply_calls int_type [Call_PushBack (Outside 9)] (c, h') of
                Inl e \<Rightarrow> False
              | Inr (c', h'') \<Rightarrow>
                  elements h'' c' = [1, 2, 3, 9] \<and> elements h'' v = [1, 2, 3]))"
    using 1 2 3 a b c by (simp add: split_beta ch p)
  let ?s = "operator_assign_copy int_type 1 0 two_vectors"
  have 4: "heap_ok (memory two_vectors)"
    by (simp add: heap_ok_def two_vectors_explicit)
  have 5: "valid (memory two_vectors) (object two_vectors 1)"
    "valid (memory two_vectors) (object two_vectors 0)"
    by (simp_all add: valid_def two_vectors_explicit)
  have 6: "separated (object two_vectors 1) (object two_vectors 0)"
    by (simp add: separated_def two_vectors_explicit)
  have 7: "elements (memory two_vectors) (object two_vectors 1) = [4, 5]"
    "elements (memory two_vectors) (object two_vectors 0) = [1, 2, 3]"
    by (simp_all add: elements_def block_def two_vectors_explicit)
  have ne: "(1 :: nat) \<noteq> 0" by simp
  note t2 = t [THEN conjunct2, rule_format,
      OF conjI [OF 4 conjI [OF 5(1) conjI [OF 5(2) conjI [OF 6 ne]]]], unfolded Let_def]
  from t2 have d: "elements (memory ?s) (object ?s 1) = [1, 2, 3]"
    "elements (memory ?s) (object ?s 0) = [1, 2, 3]"
    "equal_op (memory ?s) (object ?s 1) (object ?s 0)"
    and iso2: "\<forall>cs. case apply_calls int_type cs (object ?s 1, memory ?s) of
                        Inl e \<Rightarrow> True
                      | Inr (c', h'') \<Rightarrow>
                          elements h'' (object ?s 0) =
                            elements (memory two_vectors) (object two_vectors 0) \<and>
                          valid h'' (object ?s 0) \<and> valid h'' c'"
    unfolding 7 by blast+
  from iso2 [rule_format, of "[Call_Clear]"]
  have e: "elements (memory ?s) (object ?s 0) = [1, 2, 3]" by (simp add: 7)
  have f: "apply_calls int_type [Call_Clear] (object ?s 1, memory ?s) =
      Inr (Clear (object ?s 1), memory ?s)"
    by simp
  have g: "elements (memory ?s) (Clear (object ?s 1)) = []"
    by (simp add: elements_def Clear_def)
  have second: "let s' = operator_assign_copy int_type 1 0 two_vectors in
      elements (memory s') (object s' 1) = [1, 2, 3] \<and>
      elements (memory s') (object s' 0) = [1, 2, 3] \<and>
      equal_op (memory s') (object s' 1) (object s' 0) \<and>
      (case apply_calls int_type [Call_Clear] (object s' 1, memory s') of
         Inl e \<Rightarrow> False
       | Inr (c', h'') \<Rightarrow> elements h'' c' = [] \<and> elements h'' (object s' 0) = [1, 2, 3])"
    using d e g by (simp add: Let_def)
  from first 4 5 6 7(1) second show ?thesis by simp
qed

text \<open>C10: assigning a vector to itself, by copy or by move, changes nothing: the guard
  \<open>this != &rhs\<close> skips the body, so the size, the capacity and the elements of the vector
  are what they were.\<close>

theorem self_assignment_unchanged:
  "operator_assign_copy T a a s = s \<and>
   operator_assign_move a a s = s \<and>
   GetSize (object (operator_assign_copy T a a s) a) = GetSize (object s a) \<and>
   GetCapacity (object (operator_assign_copy T a a s) a) = GetCapacity (object s a) \<and>
   elements (memory (operator_assign_copy T a a s)) (object (operator_assign_copy T a a s) a) =
     elements (memory s) (object s a) \<and>
   GetSize (object (operator_assign_move a a s) a) = GetSize (object s a) \<and>
   GetCapacity (object (operator_assign_move a a s) a) = GetCapacity (object s a) \<and>
   elements (memory (operator_assign_move a a s)) (object (operator_assign_move a a s) a) =
     elements (memory s) (object s a)"
  by (simp add: operator_assign_copy_def operator_assign_move_def)

section \<open>The size is at most the capacity\<close>

lemma Insert_move_size_capacity:
  "size_m v \<le> capacity_m v \<Longrightarrow> Insert_move T pos x v h = Inr (r, v', h') \<Longrightarrow>
   size_m v' \<le> capacity_m v'"
  by (auto simp: Insert_move_def Let_def split_beta split: if_splits)

lemma Insert_size_capacity:
  "size_m v \<le> capacity_m v \<Longrightarrow> Insert T pos x v h = Inr (r, v', h') \<Longrightarrow>
   size_m v' \<le> capacity_m v'"
  unfolding Insert_Insert_move [of T] by (rule Insert_move_size_capacity)

lemma Erase_size_capacity:
  "size_m v \<le> capacity_m v \<Longrightarrow> Erase T pos v h = Inr (r, v', h') \<Longrightarrow>
   size_m v' \<le> capacity_m v'"
  by (auto simp: Erase_def Let_def split: if_splits)

lemma PopBack_size_capacity:
  "size_m v \<le> capacity_m v \<Longrightarrow> PopBack v = Inr v' \<Longrightarrow> size_m v' \<le> capacity_m v'"
  by (auto simp: PopBack_def split: if_splits)

lemma PushBack_size_capacity:
  "size_m v \<le> capacity_m v \<Longrightarrow>
   size_m (fst (PushBack T item v h)) \<le> capacity_m (fst (PushBack T item v h))"
  by (simp add: PushBack_size PushBack_capacity)

lemma PushBack_move_size_capacity:
  "size_m v \<le> capacity_m v \<Longrightarrow>
   size_m (fst (PushBack_move T item v h)) \<le> capacity_m (fst (PushBack_move T item v h))"
  by (simp add: PushBack_move_size PushBack_move_capacity)

lemma Resize_size_capacity:
  "size_m v \<le> capacity_m v \<Longrightarrow>
   size_m (fst (Resize T n v h)) \<le> capacity_m (fst (Resize T n v h))"
  by (auto simp: Resize_size Resize_capacity)

lemma Reserve_size_capacity:
  "size_m v \<le> capacity_m v \<Longrightarrow>
   size_m (fst (SimpleVector_Reserve T n v h)) \<le> capacity_m (fst (SimpleVector_Reserve T n v h))"
  by (simp add: Reserve_size Reserve_capacity)

lemma copy_size_capacity:
  "size_m (fst (SimpleVector_copy T v h)) \<le> capacity_m (fst (SimpleVector_copy T v h))"
  by (simp add: SimpleVector_copy_def SimpleVector_sized_def SimpleVector_default_def
      swap_explicit split_beta)

lemma apply_call_size_capacity:
  assumes "size_m v \<le> capacity_m v" and "apply_call T c (v, h) = Inr (v', h')"
  shows "size_m v' \<le> capacity_m v'"
proof (cases c)
  case (Call_PushBack x)
  with assms PushBack_size_capacity [of v T x h] show ?thesis by auto
next
  case (Call_PushBack_move x)
  with assms PushBack_move_size_capacity [of v T "Outside x" h] show ?thesis by auto
next
  case (Call_Insert pos x)
  with assms show ?thesis by (auto split: sum.splits dest: Insert_size_capacity)
next
  case (Call_Insert_move pos x)
  with assms show ?thesis by (auto split: sum.splits dest: Insert_move_size_capacity)
next
  case (Call_Erase pos)
  with assms show ?thesis by (auto split: sum.splits dest: Erase_size_capacity)
next
  case Call_PopBack
  with assms show ?thesis by (auto split: sum.splits dest: PopBack_size_capacity)
next
  case Call_Clear
  with assms show ?thesis by (auto simp: Clear_def)
next
  case (Call_Resize n)
  with assms Resize_size_capacity [of v T n h] show ?thesis by auto
next
  case (Call_Reserve n)
  with assms Reserve_size_capacity [of v T n h] show ?thesis by auto
next
  case (Call_Index_assign i x)
  with assms show ?thesis by (auto split: sum.splits)
next
  case (Call_At_assign i x)
  with assms show ?thesis by (auto split: sum.splits)
qed

lemma apply_calls_size_capacity:
  "size_m v \<le> capacity_m v \<Longrightarrow> apply_calls T cs (v, h) = Inr (v', h') \<Longrightarrow>
   size_m v' \<le> capacity_m v'"
proof (induction cs arbitrary: v h)
  case Nil
  then show ?case by simp
next
  case (Cons c cs)
  from Cons.prems(2) obtain v1 h1 where
    c: "apply_call T c (v, h) = Inr (v1, h1)" and cs: "apply_calls T cs (v1, h1) = Inr (v', h')"
    by (auto split: sum.splits)
  from apply_call_size_capacity [OF Cons.prems(1) c] have "size_m v1 \<le> capacity_m v1" .
  from Cons.IH [OF this cs] show ?case .
qed

text \<open>C1: every constructor gives a vector whose size is at most its capacity, and every
  member function that changes a vector whose size is at most its capacity leaves one whose
  size is at most its capacity: the copy and the move constructor and assignment, \<open>Reserve\<close>,
  \<open>Resize\<close>, \<open>PushBack\<close>, \<open>Insert\<close>, \<open>Erase\<close>, \<open>PopBack\<close>, \<open>Clear\<close> and
  \<open>swap\<close>, and so every run of calls. For \<open>PushBack\<close> and \<open>Insert\<close> this holds
  whatever object the argument refers to, also an element of the vector itself.\<close>

theorem size_at_most_capacity:
  fixes T :: "'a element_type" and h :: "'a heap" and s :: "'a program_state"
  shows
  "GetSize SimpleVector_default \<le> GetCapacity SimpleVector_default \<and>
   GetSize (fst (SimpleVector_reserved T obj h)) \<le> GetCapacity (fst (SimpleVector_reserved T obj h)) \<and>
   GetSize (fst (SimpleVector_sized T n h)) \<le> GetCapacity (fst (SimpleVector_sized T n h)) \<and>
   GetSize (fst (SimpleVector_filled T n x h)) \<le> GetCapacity (fst (SimpleVector_filled T n x h)) \<and>
   GetSize (fst (SimpleVector_filled_move T n x h))
     \<le> GetCapacity (fst (SimpleVector_filled_move T n x h)) \<and>
   GetSize (fst (SimpleVector_init T init h)) \<le> GetCapacity (fst (SimpleVector_init T init h)) \<and>
   GetSize (fst (SimpleVector_copy T v h)) \<le> GetCapacity (fst (SimpleVector_copy T v h)) \<and>
   (GetSize v \<le> GetCapacity v \<longrightarrow>
      (case SimpleVector_move v of
         (this, other) \<Rightarrow>
           GetSize this \<le> GetCapacity this \<and> GetSize other \<le> GetCapacity other) \<and>
      GetSize (fst (SimpleVector_Reserve T n v h)) \<le> GetCapacity (fst (SimpleVector_Reserve T n v h)) \<and>
      GetSize (fst (Resize T n v h)) \<le> GetCapacity (fst (Resize T n v h)) \<and>
      GetSize (fst (PushBack T item v h)) \<le> GetCapacity (fst (PushBack T item v h)) \<and>
      GetSize (fst (PushBack_move T item v h)) \<le> GetCapacity (fst (PushBack_move T item v h)) \<and>
      (case Insert T pos item v h of
         Inl e \<Rightarrow> True | Inr (r, v', h') \<Rightarrow> GetSize v' \<le> GetCapacity v') \<and>
      (case Insert_move T pos item v h of
         Inl e \<Rightarrow> True | Inr (r, v', h') \<Rightarrow> GetSize v' \<le> GetCapacity v') \<and>
      (case Erase T pos v h of
         Inl e \<Rightarrow> True | Inr (r, v', h') \<Rightarrow> GetSize v' \<le> GetCapacity v') \<and>
      (case PopBack v of Inl e \<Rightarrow> True | Inr v' \<Rightarrow> GetSize v' \<le> GetCapacity v') \<and>
      GetSize (Clear v) \<le> GetCapacity (Clear v) \<and>
      (case apply_calls T cs (v, h) of
         Inl e \<Rightarrow> True | Inr (v', h') \<Rightarrow> GetSize v' \<le> GetCapacity v')) \<and>
   (GetSize v \<le> GetCapacity v \<and> GetSize w \<le> GetCapacity w \<longrightarrow>
      (case swap v w of
         (v', w') \<Rightarrow> GetSize v' \<le> GetCapacity v' \<and> GetSize w' \<le> GetCapacity w')) \<and>
   ((\<forall>a. GetSize (object s a) \<le> GetCapacity (object s a)) \<longrightarrow>
      (\<forall>a. GetSize (object (operator_assign_copy T this rhs s) a)
             \<le> GetCapacity (object (operator_assign_copy T this rhs s) a)) \<and>
      (\<forall>a. GetSize (object (operator_assign_move this rhs s) a)
             \<le> GetCapacity (object (operator_assign_move this rhs s) a)))"
proof -
  have ctor:
    "GetSize SimpleVector_default \<le> GetCapacity SimpleVector_default"
    "GetSize (fst (SimpleVector_reserved T obj h)) \<le> GetCapacity (fst (SimpleVector_reserved T obj h))"
    "GetSize (fst (SimpleVector_sized T n h)) \<le> GetCapacity (fst (SimpleVector_sized T n h))"
    "GetSize (fst (SimpleVector_filled T n x h)) \<le> GetCapacity (fst (SimpleVector_filled T n x h))"
    "GetSize (fst (SimpleVector_filled_move T n x h))
       \<le> GetCapacity (fst (SimpleVector_filled_move T n x h))"
    "GetSize (fst (SimpleVector_init T init h)) \<le> GetCapacity (fst (SimpleVector_init T init h))"
    by (simp_all add: GetSize_def GetCapacity_def SimpleVector_default_def
        SimpleVector_reserved_def SimpleVector_sized_def SimpleVector_filled_def
        SimpleVector_filled_move_def SimpleVector_init_def split_beta)
  have copy: "GetSize (fst (SimpleVector_copy T v h)) \<le> GetCapacity (fst (SimpleVector_copy T v h))"
    by (simp add: GetSize_def GetCapacity_def copy_size_capacity)
  have one: "(case SimpleVector_move v of
         (this, other) \<Rightarrow>
           GetSize this \<le> GetCapacity this \<and> GetSize other \<le> GetCapacity other) \<and>
      GetSize (fst (SimpleVector_Reserve T n v h)) \<le> GetCapacity (fst (SimpleVector_Reserve T n v h)) \<and>
      GetSize (fst (Resize T n v h)) \<le> GetCapacity (fst (Resize T n v h)) \<and>
      GetSize (fst (PushBack T item v h)) \<le> GetCapacity (fst (PushBack T item v h)) \<and>
      GetSize (fst (PushBack_move T item v h)) \<le> GetCapacity (fst (PushBack_move T item v h)) \<and>
      (case Insert T pos item v h of
         Inl e \<Rightarrow> True | Inr (r, v', h') \<Rightarrow> GetSize v' \<le> GetCapacity v') \<and>
      (case Insert_move T pos item v h of
         Inl e \<Rightarrow> True | Inr (r, v', h') \<Rightarrow> GetSize v' \<le> GetCapacity v') \<and>
      (case Erase T pos v h of
         Inl e \<Rightarrow> True | Inr (r, v', h') \<Rightarrow> GetSize v' \<le> GetCapacity v') \<and>
      (case PopBack v of Inl e \<Rightarrow> True | Inr v' \<Rightarrow> GetSize v' \<le> GetCapacity v') \<and>
      GetSize (Clear v) \<le> GetCapacity (Clear v) \<and>
      (case apply_calls T cs (v, h) of
         Inl e \<Rightarrow> True | Inr (v', h') \<Rightarrow> GetSize v' \<le> GetCapacity v')"
    if "GetSize v \<le> GetCapacity v"
  proof -
    from that have v: "size_m v \<le> capacity_m v" by (simp add: GetSize_def GetCapacity_def)
    have "case SimpleVector_move v of
         (this, other) \<Rightarrow>
           GetSize this \<le> GetCapacity this \<and> GetSize other \<le> GetCapacity other"
      using v
      by (simp add: SimpleVector_move_def swap_explicit GetSize_def GetCapacity_def
          SimpleVector_default_def)
    moreover have "GetSize (Clear v) \<le> GetCapacity (Clear v)"
      by (simp add: Clear_def GetSize_def GetCapacity_def)
    ultimately show ?thesis
      using PushBack_size_capacity [OF v, of T item h]
        PushBack_move_size_capacity [OF v, of T item h] Resize_size_capacity [OF v, of T n h]
        Reserve_size_capacity [OF v, of T n h]
        Insert_size_capacity [OF v, of T pos item h]
        Insert_move_size_capacity [OF v, of T pos item h]
        Erase_size_capacity [OF v, of T pos h] PopBack_size_capacity [OF v]
        apply_calls_size_capacity [OF v, of T cs h]
      by (auto simp: GetSize_def GetCapacity_def split: sum.splits)
  qed
  have two: "case swap v w of
         (v', w') \<Rightarrow> GetSize v' \<le> GetCapacity v' \<and> GetSize w' \<le> GetCapacity w'"
    if "GetSize v \<le> GetCapacity v \<and> GetSize w \<le> GetCapacity w"
    using that by (simp add: swap_explicit)
  have asg: "(\<forall>a. GetSize (object (operator_assign_copy T this rhs s) a)
             \<le> GetCapacity (object (operator_assign_copy T this rhs s) a)) \<and>
      (\<forall>a. GetSize (object (operator_assign_move this rhs s) a)
             \<le> GetCapacity (object (operator_assign_move this rhs s) a))"
    if "\<forall>a. GetSize (object s a) \<le> GetCapacity (object s a)"
    using that copy_size_capacity [of T "object s rhs" "memory s"]
    by (auto simp: operator_assign_copy_def operator_assign_move_def ArrayPtr_move_assign_def
        swap_explicit split_beta GetSize_def GetCapacity_def)
  from ctor copy one two asg show ?thesis by blast
qed


theorem size_at_most_capacity_witness:
  "GetSize (object two_vectors 0) \<le> GetCapacity (object two_vectors 0) \<and>
   GetSize (object two_vectors 1) \<le> GetCapacity (object two_vectors 1) \<and>
   (\<forall>a. GetSize (object two_vectors a) \<le> GetCapacity (object two_vectors a)) \<and>
   GetSize (fst (PushBack int_type (Outside 9) (object two_vectors 0) (memory two_vectors))) = 4 \<and>
   GetCapacity (fst (PushBack int_type (Outside 9) (object two_vectors 0) (memory two_vectors))) = 6 \<and>
   GetSize (fst (PushBack int_type (Outside 9) (object two_vectors 0) (memory two_vectors)))
     \<le> GetCapacity (fst (PushBack int_type (Outside 9) (object two_vectors 0) (memory two_vectors))) \<and>
   GetSize (fst (Resize int_type 7 (object two_vectors 0) (memory two_vectors)))
     \<le> GetCapacity (fst (Resize int_type 7 (object two_vectors 0) (memory two_vectors))) \<and>
   (case swap (object two_vectors 0) (object two_vectors 1) of
      (v', w') \<Rightarrow> GetSize v' \<le> GetCapacity v' \<and> GetSize w' \<le> GetCapacity w') \<and>
   GetSize (object (operator_assign_copy int_type 1 0 two_vectors) 1)
     \<le> GetCapacity (object (operator_assign_copy int_type 1 0 two_vectors) 1) \<and>
   GetSize (object (operator_assign_move 1 0 two_vectors) 0)
     \<le> GetCapacity (object (operator_assign_move 1 0 two_vectors) 0)"
proof -
  have all: "\<forall>a. GetSize (object two_vectors a) \<le> GetCapacity (object two_vectors a)"
    by (simp add: two_vectors_def split_beta SimpleVector_init_explicit SimpleVector_default_def
        GetSize_def GetCapacity_def)
  then have v: "GetSize (object two_vectors 0) \<le> GetCapacity (object two_vectors 0)"
    and w: "GetSize (object two_vectors 1) \<le> GetCapacity (object two_vectors 1)"
    by blast+
  have p: "GetSize (fst (PushBack int_type (Outside 9) (object two_vectors 0) (memory two_vectors))) = 4"
    "GetCapacity (fst (PushBack int_type (Outside 9) (object two_vectors 0) (memory two_vectors))) = 6"
    by (simp_all add: GetSize_def GetCapacity_def PushBack_size PushBack_capacity
        two_vectors_explicit)
  note t = size_at_most_capacity [where T = int_type and v = "object two_vectors 0"
      and w = "object two_vectors 1" and h = "memory two_vectors" and s = two_vectors
      and x = 9 and item = "Outside 9" and n = 7 and this = 1 and rhs = 0
      and obj = "Reserve 0" and init = "[]"
      and pos = nullptr and cs = "[]"]
  from t v w all p show ?thesis by simp
qed

section \<open>The constructor from a reserve proxy\<close>

text \<open>C9: for every \<open>n\<close>, the vector constructed from \<open>Reserve(n)\<close> has size 0 and
  capacity exactly \<open>n\<close> (and its buffer is a new array of \<open>n\<close> slots, or none for
  \<open>n = 0\<close>).\<close>

theorem reserve_constructor_size_capacity:
  "GetSize (fst (SimpleVector_reserved T (Reserve n) h)) = 0 \<and>
   GetCapacity (fst (SimpleVector_reserved T (Reserve n) h)) = n \<and>
   IsEmpty (fst (SimpleVector_reserved T (Reserve n) h)) \<and>
   elements (snd (SimpleVector_reserved T (Reserve n) h))
     (fst (SimpleVector_reserved T (Reserve n) h)) = [] \<and>
   (case SimpleVector_reserved T (Reserve n) h of
      (v, h') \<Rightarrow> if n = 0 then data_m v = 0 \<and> h' = h
                 else blocks h' (data_m v) = Some (replicate n (Type_default T)))"
  by (simp add: SimpleVector_reserved_def Reserve_def ReserveProxyObj_GetCapacity_def
      ArrayPtr_new_def GetSize_def GetCapacity_def IsEmpty_def elements_def)

end
